theory Spec2Isabelle
  imports Complex_Main "HOL-Library.Sublist"
begin

section \<open>Syntax nodes of the query parser\<close>

text \<open>
  The plugins of \<^verbatim>\<open>whoosh/qparser/plugins.py\<close> rewrite a tree of syntax nodes. The node
  classes themselves live in \<^verbatim>\<open>whoosh/qparser/syntax.py\<close>, which is not part of the
  sources at hand; the datatype below follows the data model of the specification
  (text nodes, marker nodes, group nodes, operator nodes) and the constructor calls
  that \<^verbatim>\<open>plugins.py\<close> makes.

  Boosts are Python floats. The filters only copy them, create the default \<open>1.0\<close>
  and multiply; the node type is therefore polymorphic in the boost type \<open>'b\<close>, and a
  function that needs the default or the product asks for \<open>one\<close> or \<open>times\<close>.
\<close>

datatype error = IndexError | AttributeError | UnboundLocalError

datatype gtype = AndGroup | OrGroup | NotGroup | AndNotGroup | AndMaybeGroup | RequireGroup

datatype optype = PrefixOperator | InfixOperator

datatype tkind = Word | Prefix | Wildcard | Phrase int

text \<open>
  \<^item> \<open>TextNode kind text fieldname boost startchar endchar\<close>: a word, prefix, wildcard or
    phrase (with its slop);
  \<^item> \<open>RangeNode start end startexcl endexcl fieldname boost startchar endchar\<close>;
  \<^item> \<open>BoostNode original boost\<close>, \<open>FieldnameNode fieldname original\<close>, \<open>GtLtNode rel\<close>:
    the markers that carry data;
  \<^item> \<open>Operator optype text grouptype leftassoc\<close>: what an \<^verbatim>\<open>OpTagger\<close> creates;
  \<^item> \<open>GroupNode grouptype nodes fieldname boost\<close>.
\<close>

datatype 'b node =
    TextNode tkind string "string option" 'b "nat option" "nat option"
  | RangeNode "string option" "string option" bool bool "string option" 'b "nat option" "nat option"
  | Whitespace
  | BoostNode string 'b
  | OpenBracket
  | CloseBracket
  | FieldnameNode string string
  | GtLtNode string
  | Plus
  | Minus
  | Operator optype string gtype bool
  | GroupNode gtype "'b node list" "string option" 'b

text \<open>\<^verbatim>\<open>syntax.WordNode(text)\<close>: a fresh word, no field name, boost \<open>1.0\<close>, no offsets.\<close>

definition WordNode :: "string \<Rightarrow> ('b::one) node" where
  "WordNode text = TextNode Word text None 1 None None"

text \<open>\<^verbatim>\<open>gtype(nodes)\<close>, as in \<^verbatim>\<open>syntax.AndGroup()\<close> or \<^verbatim>\<open>syntax.AndMaybeGroup([a, b])\<close>.\<close>

definition new_group :: "gtype \<Rightarrow> ('b::one) node list \<Rightarrow> 'b node" where
  "new_group gt nodes = GroupNode gt nodes None 1"

text \<open>
  Modelled from the spec: the capability flags \<^verbatim>\<open>has_text\<close>, \<^verbatim>\<open>has_fieldname\<close>,
  \<^verbatim>\<open>has_boost\<close> and the test \<^verbatim>\<open>is_ws()\<close> of \<^verbatim>\<open>syntax.py\<close> (absent). Section 3 of the
  specification: a text node carries literal text, an optional field name and a boost;
  a range node has bounds in place of literal text; a group node carries a group-level
  boost and a field-name association; a marker carries neither.
\<close>

fun has_text :: "'b node \<Rightarrow> bool" where
  "has_text (TextNode k t fn b sc ec) = True"
| "has_text _ = False"

fun has_fieldname :: "'b node \<Rightarrow> bool" where
  "has_fieldname (TextNode k t fn b sc ec) = True"
| "has_fieldname (RangeNode s e sx ex fn b sc ec) = True"
| "has_fieldname (GroupNode gt ns fn b) = True"
| "has_fieldname _ = False"

fun has_boost :: "'b node \<Rightarrow> bool" where
  "has_boost (TextNode k t fn b sc ec) = True"
| "has_boost (RangeNode s e sx ex fn b sc ec) = True"
| "has_boost (GroupNode gt ns fn b) = True"
| "has_boost _ = False"

fun is_ws :: "'b node \<Rightarrow> bool" where
  "is_ws Whitespace = True"
| "is_ws _ = False"

text \<open>The \<^verbatim>\<open>isinstance\<close> tests of the filters.\<close>

fun is_group :: "'b node \<Rightarrow> bool" where
  "is_group (GroupNode gt ns fn b) = True"
| "is_group _ = False"

fun is_fieldname_node :: "'b node \<Rightarrow> bool" where
  "is_fieldname_node (FieldnameNode f orig) = True"
| "is_fieldname_node _ = False"

text \<open>Attribute reads; \<open>None\<close> where the node has no such attribute set.\<close>

fun fieldname_of :: "'b node \<Rightarrow> string option" where
  "fieldname_of (TextNode k t fn b sc ec) = fn"
| "fieldname_of (RangeNode s e sx ex fn b sc ec) = fn"
| "fieldname_of (GroupNode gt ns fn b) = fn"
| "fieldname_of (FieldnameNode f orig) = Some f"
| "fieldname_of _ = None"

fun boost_of :: "'b node \<Rightarrow> 'b option" where
  "boost_of (TextNode k t fn b sc ec) = Some b"
| "boost_of (RangeNode s e sx ex fn b sc ec) = Some b"
| "boost_of (GroupNode gt ns fn b) = Some b"
| "boost_of (BoostNode orig b) = Some b"
| "boost_of _ = None"

fun nodes_of :: "'b node \<Rightarrow> 'b node list" where
  "nodes_of (GroupNode gt ns fn b) = ns"
| "nodes_of _ = []"

text \<open>
  Modelled from the spec: \<^verbatim>\<open>GroupNode.empty_copy\<close> of \<^verbatim>\<open>syntax.py\<close> (absent). Every filter
  starts its output with \<^verbatim>\<open>group.empty_copy()\<close>: a group of the same type that keeps the
  group-level boost and the field-name association of section 3 and has no children.
  \<open>extend\<close> is \<^verbatim>\<open>GroupNode.extend\<close>, the children appended in order.
\<close>

fun empty_copy :: "'b node \<Rightarrow> 'b node" where
  "empty_copy (GroupNode gt ns fn b) = GroupNode gt [] fn b"
| "empty_copy n = n"

fun extend :: "'b node \<Rightarrow> 'b node list \<Rightarrow> 'b node" where
  "extend (GroupNode gt ns fn b) xs = GroupNode gt (ns @ xs) fn b"
| "extend n xs = n"

text \<open>
  Modelled from the spec: \<^verbatim>\<open>set_boost\<close> of \<^verbatim>\<open>syntax.py\<close> (absent). Section 4.4: the apply
  pass \<^emph>\<open>multiplies\<close> the node's boost by the marker's numeric value; a node without the
  boost capability is left alone.
\<close>

fun set_boost :: "('b::times) node \<Rightarrow> 'b \<Rightarrow> 'b node" where
  "set_boost (TextNode k t fn b sc ec) v = TextNode k t fn (b * v) sc ec"
| "set_boost (RangeNode s e sx ex fn b sc ec) v = RangeNode s e sx ex fn (b * v) sc ec"
| "set_boost (GroupNode gt ns fn b) v = GroupNode gt ns fn (b * v)"
| "set_boost n v = n"

text \<open>
  Modelled from the spec: \<^verbatim>\<open>set_fieldname(name, override)\<close> of \<^verbatim>\<open>syntax.py\<close> (absent).
  Sections 3 and 4.6: the name is assigned without overriding an already-set field name
  unless the caller may override; a group takes the name as its association and
  propagates it to its children (\<^verbatim>\<open>title:(hello world)\<close> gives both words the field);
  a node without the capability is left alone.
\<close>

fun set_fieldname :: "string \<Rightarrow> bool \<Rightarrow> 'b node \<Rightarrow> 'b node" where
  "set_fieldname name override (TextNode k t fn b sc ec) =
     TextNode k t (if fn = None \<or> override then Some name else fn) b sc ec"
| "set_fieldname name override (RangeNode s e sx ex fn b sc ec) =
     RangeNode s e sx ex (if fn = None \<or> override then Some name else fn) b sc ec"
| "set_fieldname name override (GroupNode gt ns fn b) =
     GroupNode gt (map (set_fieldname name override) ns)
       (if fn = None \<or> override then Some name else fn) b"
| "set_fieldname name override n = n"

text \<open>
  A place in a tree: the group reached from the root by going down through nested groups.
  \<open>Child gt pre p post fn b\<close> is a group with the children \<open>pre\<close>, then the group that \<open>p\<close>
  leads into, then \<open>post\<close>; \<open>plug p t\<close> is the tree with \<open>t\<close> at that place.
\<close>

datatype 'b path = Top | Child gtype "'b node list" "'b path" "'b node list" "string option" 'b

fun plug :: "'b path \<Rightarrow> 'b node \<Rightarrow> 'b node" where
  "plug Top t = t"
| "plug (Child gt pre p post fn b) t = GroupNode gt (pre @ [plug p t] @ post) fn b"

fun depth :: "'b path \<Rightarrow> nat" where
  "depth Top = 0"
| "depth (Child gt pre p post fn b) = Suc (depth p)"

section \<open>GtLtPlugin.make\_range\<close>

text \<open>
  \<^verbatim>\<open>make_range(self, node, rel)\<close> reads \<^verbatim>\<open>node.text\<close> (an \<^verbatim>\<open>AttributeError\<close> on a node
  without text), builds the range node of the relation and copies the character
  offsets. No branch of the \<^verbatim>\<open>if\<close>/\<^verbatim>\<open>elif\<close> chain binds \<^verbatim>\<open>n\<close> for any other
  relation, and the next line then raises \<^verbatim>\<open>UnboundLocalError\<close>. A fresh range node
  has no field name and boost \<open>1.0\<close>.
\<close>

fun make_range :: "('b::one) node \<Rightarrow> string \<Rightarrow> error + 'b node" where
  "make_range (TextNode k text fn b startchar endchar) rel =
     (if rel = ''<'' then Inr (RangeNode None (Some text) False True None 1 startchar endchar)
      else if rel = ''>'' then Inr (RangeNode (Some text) None True False None 1 startchar endchar)
      else if rel = ''<='' \<or> rel = ''=<''
        then Inr (RangeNode None (Some text) False False None 1 startchar endchar)
      else if rel = ''>='' \<or> rel = ''=>''
        then Inr (RangeNode (Some text) None False False None 1 startchar endchar)
      else Inl UnboundLocalError)"
| "make_range _ rel = Inl AttributeError"

text \<open>
  C3. For a node carrying the text \<open>t\<close> (of any text kind, field name, boost and offsets),
  \<^verbatim>\<open>make_range\<close> returns a range node with bounds and exclusivity flags
  \<open>(None, t, False, True)\<close> for \<^verbatim>\<open><\<close>, \<open>(t, None, True, False)\<close> for \<^verbatim>\<open>>\<close>,
  \<open>(None, t, False, False)\<close> for \<^verbatim>\<open><=\<close> and \<^verbatim>\<open>=<\<close>, and \<open>(t, None, False, False)\<close> for
  \<^verbatim>\<open>>=\<close> and \<^verbatim>\<open>=>\<close>; the new node takes the operand's character offsets.
\<close>

theorem make_range_bounds:
  fixes b :: "'b::one"
  shows "make_range (TextNode k t fn b sc ec) ''<''
           = Inr (RangeNode None (Some t) False True None 1 sc ec)
       \<and> make_range (TextNode k t fn b sc ec) ''>''
           = Inr (RangeNode (Some t) None True False None 1 sc ec)
       \<and> make_range (TextNode k t fn b sc ec) ''<=''
           = Inr (RangeNode None (Some t) False False None 1 sc ec)
       \<and> make_range (TextNode k t fn b sc ec) ''=<''
           = Inr (RangeNode None (Some t) False False None 1 sc ec)
       \<and> make_range (TextNode k t fn b sc ec) ''>=''
           = Inr (RangeNode (Some t) None False False None 1 sc ec)
       \<and> make_range (TextNode k t fn b sc ec) ''=>''
           = Inr (RangeNode (Some t) None False False None 1 sc ec)"
  by simp

section \<open>WhitespacePlugin.remove\_whitespace\<close>

text \<open>
  The filter copies the group without its children and walks the children in order: a
  nested group is filtered recursively and kept, any other node is kept unless it is
  whitespace. \<open>newgroup\<close> is the list of children appended so far.
\<close>

fun remove_whitespace :: "'b node \<Rightarrow> 'b node" where
  "remove_whitespace (GroupNode gt nodes fn b) =
     extend (empty_copy (GroupNode gt nodes fn b))
       (foldl (\<lambda>newgroup node.
                 if is_group node then newgroup @ [remove_whitespace node]
                 else if \<not> is_ws node then newgroup @ [node]
                 else newgroup)
              [] nodes)"
| "remove_whitespace node = node"

text \<open>A tree without whitespace nodes, at any depth.\<close>

fun no_ws :: "'b node \<Rightarrow> bool" where
  "no_ws (GroupNode gt ns fn b) = list_all no_ws ns"
| "no_ws Whitespace = False"
| "no_ws _ = True"

section \<open>BoostPlugin.do\_boost\<close>

text \<open>
  The apply pass, registered by \<^verbatim>\<open>BoostPlugin.filters\<close> at priority 700; the operator
  filter is registered by \<^verbatim>\<open>OperatorsPlugin.filters\<close> at priority 600.

  The loop keeps the children emitted so far. A nested group is processed recursively
  and appended. A boost marker whose previously emitted node has the boost capability
  is applied to that node (\<^verbatim>\<open>newgroup[-1].set_boost(node.boost)\<close>) and skipped; any
  other boost marker becomes a word of its original text. Every other node is appended.
\<close>

definition do_boost_priority :: nat where
  "do_boost_priority = 700"

definition do_operators_priority :: nat where
  "do_operators_priority = 600"

fun do_boost :: "('b::{one,times}) node \<Rightarrow> 'b node" where
  "do_boost (GroupNode gt nodes fn b) =
     extend (empty_copy (GroupNode gt nodes fn b))
       (foldl (\<lambda>newgroup node.
                 if is_group node then newgroup @ [do_boost node]
                 else (case node of
                         BoostNode original boost \<Rightarrow>
                           if newgroup \<noteq> [] \<and> has_boost (last newgroup)
                           then butlast newgroup @ [set_boost (last newgroup) boost]
                           else newgroup @ [WordNode original]
                       | _ \<Rightarrow> newgroup @ [node]))
              [] nodes)"
| "do_boost node = node"

section \<open>Whitespace removal is idempotent\<close>

lemma remove_whitespace_foldl:
  "foldl (\<lambda>newgroup node.
            if is_group node then newgroup @ [remove_whitespace node]
            else if \<not> is_ws node then newgroup @ [node]
            else newgroup) acc ns
   = acc @ map (\<lambda>node. if is_group node then remove_whitespace node else node)
             (filter (\<lambda>node. is_group node \<or> \<not> is_ws node) ns)"
  by (induction ns arbitrary: acc) auto

lemma remove_whitespace_group:
  "remove_whitespace (GroupNode gt ns fn b) =
     GroupNode gt (map (\<lambda>node. if is_group node then remove_whitespace node else node)
             (filter (\<lambda>node. is_group node \<or> \<not> is_ws node) ns)) fn b"
  by (simp add: remove_whitespace_foldl)

lemma no_ws_not_is_ws: "no_ws n \<Longrightarrow> \<not> is_ws n"
  by (cases n) auto

lemma remove_whitespace_no_ws: "no_ws n \<Longrightarrow> remove_whitespace n = n"
proof (induction n)
  case (GroupNode gt ns fn b)
  have "filter (\<lambda>node. is_group node \<or> \<not> is_ws node) ns = ns"
    using GroupNode.prems by (auto simp: list_all_iff no_ws_not_is_ws intro!: filter_True)
  moreover have "map (\<lambda>node. if is_group node then remove_whitespace node else node) ns = ns"
    using GroupNode by (auto simp: list_all_iff intro!: map_idI)
  ultimately show ?case by (simp only: remove_whitespace_group)
qed simp_all

lemma no_ws_remove_whitespace: "is_group n \<Longrightarrow> no_ws (remove_whitespace n)"
proof (induction n)
  case (GroupNode gt ns fn b)
  show ?case
    unfolding remove_whitespace_group no_ws.simps list_all_iff
  proof
    fix x
    assume "x \<in> set (map (\<lambda>node. if is_group node then remove_whitespace node else node)
             (filter (\<lambda>node. is_group node \<or> \<not> is_ws node) ns))"
    then obtain y where y: "y \<in> set ns" "is_group y \<or> \<not> is_ws y"
       "x = (if is_group y then remove_whitespace y else y)" by auto
    show "no_ws x"
    proof (cases "is_group y")
      case True
      then show ?thesis using y GroupNode.IH by simp
    next
      case False
      then show ?thesis using y by (cases y) auto
    qed
  qed
qed simp_all

text \<open>
  C8. On a tree that holds no whitespace node at any depth, \<^verbatim>\<open>remove_whitespace\<close> returns
  the tree it was given; and running the filter on its own output changes nothing, for
  every input tree.
\<close>

theorem remove_whitespace_idempotent:
  "(no_ws g \<longrightarrow> remove_whitespace g = g)
   \<and> remove_whitespace (remove_whitespace g) = remove_whitespace g"
proof (cases "is_group g")
  case True
  then show ?thesis
    by (simp add: remove_whitespace_no_ws no_ws_remove_whitespace)
next
  case False
  then show ?thesis by (cases g) simp_all
qed

text \<open>
  The query \<^verbatim>\<open>a (b c)\<close> after whitespace removal is returned as it is; with the
  whitespace still in place, the second run equals the first.
\<close>

theorem remove_whitespace_idempotent_witness:
  "no_ws (GroupNode AndGroup
            [WordNode ''a'', GroupNode AndGroup [WordNode ''b'', WordNode ''c''] None 1]
            None (1::real))
   \<and> remove_whitespace (GroupNode AndGroup
            [WordNode ''a'', GroupNode AndGroup [WordNode ''b'', WordNode ''c''] None 1]
            None (1::real))
     = GroupNode AndGroup
            [WordNode ''a'', GroupNode AndGroup [WordNode ''b'', WordNode ''c''] None 1]
            None 1"
proof -
  let ?g = "GroupNode AndGroup
            [WordNode ''a'', GroupNode AndGroup [WordNode ''b'', WordNode ''c''] None 1]
            None (1::real)"
  have h: "no_ws ?g" by (simp add: WordNode_def)
  from remove_whitespace_idempotent [of ?g] have "no_ws ?g \<longrightarrow> remove_whitespace ?g = ?g"
    by (rule conjunct1)
  with h have "remove_whitespace ?g = ?g" by (rule rev_mp)
  with h show ?thesis by (rule conjI)
qed

section \<open>A boost marker multiplies the boost of the node before it\<close>

text \<open>One turn of the loop of \<^verbatim>\<open>do_boost\<close>, named.\<close>

definition do_boost_step :: "('b::{one,times}) node list \<Rightarrow> 'b node \<Rightarrow> 'b node list" where
  "do_boost_step newgroup node =
     (if is_group node then newgroup @ [do_boost node]
      else (case node of
              BoostNode original boost \<Rightarrow>
                if newgroup \<noteq> [] \<and> has_boost (last newgroup)
                then butlast newgroup @ [set_boost (last newgroup) boost]
                else newgroup @ [WordNode original]
            | _ \<Rightarrow> newgroup @ [node]))"

lemma do_boost_group:
  "do_boost (GroupNode gt nodes fn b) = GroupNode gt (foldl do_boost_step [] nodes) fn b"
proof -
  have step: "do_boost_step = (\<lambda>newgroup node.
                 if is_group node then newgroup @ [do_boost node]
                 else (case node of
                         BoostNode original boost \<Rightarrow>
                           if newgroup \<noteq> [] \<and> has_boost (last newgroup)
                           then butlast newgroup @ [set_boost (last newgroup) boost]
                           else newgroup @ [WordNode original]
                       | _ \<Rightarrow> newgroup @ [node]))"
    by (intro ext) (simp only: do_boost_step_def)
  show ?thesis
    unfolding step by (simp only: do_boost.simps empty_copy.simps extend.simps append_Nil)
qed

lemma do_boost_set_boost:
  "do_boost (set_boost n v) = set_boost (do_boost n) v"
  by (cases n) (simp_all only: do_boost_group set_boost.simps do_boost.simps)

lemma boost_of_do_boost: "boost_of (do_boost n) = boost_of n"
  by (cases n) (simp_all only: do_boost_group boost_of.simps do_boost.simps)

lemma has_boost_do_boost: "has_boost (do_boost n) = has_boost n"
  by (cases n) (simp_all only: do_boost_group has_boost.simps do_boost.simps)

lemma boost_of_set_boost:
  "has_boost n \<Longrightarrow> boost_of n = Some b0 \<Longrightarrow> boost_of (set_boost n v) = Some (b0 * v)"
  by (cases n) simp_all

lemma do_boost_step_boostable:
  "has_boost n \<Longrightarrow> do_boost_step S n = S @ [if is_group n then do_boost n else n]"
  by (cases n) (simp_all add: do_boost_step_def del: do_boost.simps)

lemma do_boost_step_marker:
  "has_boost n' \<Longrightarrow> do_boost_step (S @ [n']) (BoostNode orig v) = S @ [set_boost n' v]"
  by (simp add: do_boost_step_def)

lemma do_boost_step_boosted:
  "has_boost n \<Longrightarrow>
   do_boost_step S (set_boost n v) = S @ [set_boost (if is_group n then do_boost n else n) v]"
  by (cases n) (simp_all add: do_boost_step_def do_boost_group del: do_boost.simps)

lemma do_boost_marker_children:
  fixes n :: "('b::{one,times}) node"
  assumes "has_boost n" and "boost_of n = Some b0"
  shows "do_boost (GroupNode gt (pre @ [n, BoostNode orig v] @ post) fn b)
           = do_boost (GroupNode gt (pre @ [set_boost n v] @ post) fn b)
       \<and> boost_of (set_boost n v) = Some (b0 * v)
       \<and> (\<exists>ys n'. nodes_of (do_boost (GroupNode gt (pre @ [n]) fn b)) = ys @ [n']
              \<and> boost_of n' = Some b0
              \<and> nodes_of (do_boost (GroupNode gt (pre @ [n, BoostNode orig v]) fn b))
                   = ys @ [set_boost n' v]
              \<and> boost_of (set_boost n' v) = Some (b0 * v))"
proof -
  let ?n' = "if is_group n then do_boost n else n"
  define S where "S = foldl do_boost_step [] pre"
  have n': "has_boost ?n'" "boost_of ?n' = Some b0"
    using assms by (simp_all add: has_boost_do_boost boost_of_do_boost del: do_boost.simps)
  note step_n = do_boost_step_boostable [OF assms(1), of S]
  note step_marker = do_boost_step_marker [OF n'(1), of S orig v]
  note step_boosted = do_boost_step_boosted [OF assms(1), of S v]
  have "foldl do_boost_step [] (pre @ [n, BoostNode orig v] @ post)
          = foldl do_boost_step (S @ [set_boost ?n' v]) post"
    by (simp only: foldl_append foldl_Cons foldl_Nil S_def [symmetric] step_n step_marker)
  moreover have "foldl do_boost_step [] (pre @ [set_boost n v] @ post)
          = foldl do_boost_step (S @ [set_boost ?n' v]) post"
    by (simp only: foldl_append foldl_Cons foldl_Nil S_def [symmetric] step_boosted)
  ultimately have eq: "do_boost (GroupNode gt (pre @ [n, BoostNode orig v] @ post) fn b)
           = do_boost (GroupNode gt (pre @ [set_boost n v] @ post) fn b)"
    by (simp only: do_boost_group)
  have a: "nodes_of (do_boost (GroupNode gt (pre @ [n]) fn b)) = S @ [?n']"
    by (simp only: do_boost_group nodes_of.simps foldl_append foldl_Cons foldl_Nil
          S_def [symmetric] step_n)
  have b: "nodes_of (do_boost (GroupNode gt (pre @ [n, BoostNode orig v]) fn b))
             = S @ [set_boost ?n' v]"
    by (simp only: do_boost_group nodes_of.simps foldl_append foldl_Cons foldl_Nil
          S_def [symmetric] step_n step_marker)
  have c: "boost_of (set_boost ?n' v) = Some (b0 * v)"
    using n' by (rule boost_of_set_boost)
  have d: "boost_of (set_boost n v) = Some (b0 * v)"
    using assms by (rule boost_of_set_boost)
  from eq d a b c n'(2) show ?thesis by blast
qed

subsection \<open>Markers in nested groups\<close>

text \<open>A tree without boost markers, at any depth.\<close>

fun no_boost_marker :: "'b node \<Rightarrow> bool" where
  "no_boost_marker (GroupNode gt ns fn b) = list_all no_boost_marker ns"
| "no_boost_marker (BoostNode orig v) = False"
| "no_boost_marker _ = True"

lemma is_group_plug: "is_group t \<Longrightarrow> is_group (plug p t)"
  by (cases p) simp_all

lemma do_boost_step_group: "is_group g \<Longrightarrow> do_boost_step S g = S @ [do_boost g]"
  by (simp add: do_boost_step_def del: do_boost.simps)

lemma do_boost_child_cong:
  assumes "is_group g" and "is_group g'" and "do_boost g = do_boost g'"
  shows "do_boost (GroupNode gt (pre @ [g] @ post) fn b)
           = do_boost (GroupNode gt (pre @ [g'] @ post) fn b)"
  by (simp only: do_boost_group foldl_append foldl_Cons foldl_Nil
        do_boost_step_group [OF assms(1)] do_boost_step_group [OF assms(2)] assms(3))

lemma do_boost_plug_cong:
  assumes "is_group g" and "is_group g'" and "do_boost g = do_boost g'"
  shows "do_boost (plug p g) = do_boost (plug p g')"
proof (induction p)
  case Top
  from assms(3) show ?case by simp
next
  case (Child gt pre p post fn b)
  have "do_boost (GroupNode gt (pre @ [plug p g] @ post) fn b)
          = do_boost (GroupNode gt (pre @ [plug p g'] @ post) fn b)"
    using is_group_plug [OF assms(1)] is_group_plug [OF assms(2)] Child.IH
    by (rule do_boost_child_cong)
  then show ?case by (simp only: plug.simps)
qed

lemma do_boost_step_no_marker:
  "\<not> is_group x \<Longrightarrow> no_boost_marker x \<Longrightarrow> do_boost_step S x = S @ [x]"
  by (cases x) (simp_all add: do_boost_step_def)

lemma do_boost_loop_no_marker:
  "(\<And>x. x \<in> set ns \<Longrightarrow> no_boost_marker x) \<Longrightarrow>
   (\<And>x. x \<in> set ns \<Longrightarrow> is_group x \<Longrightarrow> do_boost x = x) \<Longrightarrow>
   foldl do_boost_step S ns = S @ ns"
proof (induction ns arbitrary: S)
  case Nil
  show ?case by simp
next
  case (Cons x xs)
  have "do_boost_step S x = S @ [x]"
  proof (cases "is_group x")
    case True
    with Cons.prems(2) [of x] show ?thesis by (simp add: do_boost_step_group del: do_boost.simps)
  next
    case False
    with Cons.prems(1) [of x] show ?thesis by (simp add: do_boost_step_no_marker)
  qed
  moreover have "foldl do_boost_step (S @ [x]) xs = (S @ [x]) @ xs"
    by (rule Cons.IH) (simp_all add: Cons.prems)
  ultimately show ?case by simp
qed

lemma do_boost_no_marker: "no_boost_marker t \<Longrightarrow> do_boost t = t"
proof (induction t)
  case (GroupNode gt ns fn b)
  have "foldl do_boost_step [] ns = [] @ ns"
    by (rule do_boost_loop_no_marker)
       (use GroupNode in \<open>auto simp: list_all_iff\<close>)
  then show ?case by (simp only: do_boost_group append_Nil)
qed simp_all

lemma no_boost_marker_set_boost: "no_boost_marker (set_boost n v) = no_boost_marker n"
  by (cases n) simp_all

lemma no_boost_marker_plug:
  "no_boost_marker (plug p (GroupNode gt (pre @ [n] @ post) fn b)) \<Longrightarrow>
   no_boost_marker (plug p (GroupNode gt (pre @ [set_boost n v] @ post) fn b))"
  by (induction p) (simp_all add: no_boost_marker_set_boost)

text \<open>
  C2. \<^verbatim>\<open>do_boost\<close> is registered after the operator filter (700 after 600). Let \<open>n\<close> be a
  node with the boost capability that carries the boost \<open>b0\<close>, immediately followed by
  a boost marker of value \<open>v\<close>, among the children of a group at any depth \<open>p\<close> of the
  tree given to the filter. Then
  \<^item> the filter's output is its output for the tree without the marker and with \<open>n\<close>
    boosted by \<open>v\<close>;
  \<^item> if the tree holds no other boost marker, the output is the tree itself without the
    marker and with \<open>n\<close> boosted by \<open>v\<close>;
  \<^item> the boost of \<open>n\<close> boosted by \<open>v\<close> is \<open>b0 * v\<close>;
  \<^item> within the group that holds \<open>n\<close>, at the moment the marker has been read, the last
    node emitted is the node emitted for \<open>n\<close>, now with boost \<open>b0 * v\<close>, and nothing was
    emitted for the marker.
\<close>

theorem do_boost_applies_marker:
  fixes n :: "('b::{one,times}) node"
  assumes "has_boost n" and "boost_of n = Some b0"
  shows "do_operators_priority < do_boost_priority
       \<and> do_boost (plug p (GroupNode gt (pre @ [n, BoostNode orig v] @ post) fn b))
           = do_boost (plug p (GroupNode gt (pre @ [set_boost n v] @ post) fn b))
       \<and> (no_boost_marker (plug p (GroupNode gt (pre @ [n] @ post) fn b)) \<longrightarrow>
           do_boost (plug p (GroupNode gt (pre @ [n, BoostNode orig v] @ post) fn b))
             = plug p (GroupNode gt (pre @ [set_boost n v] @ post) fn b))
       \<and> boost_of (set_boost n v) = Some (b0 * v)
       \<and> (\<exists>ys n'. nodes_of (do_boost (GroupNode gt (pre @ [n]) fn b)) = ys @ [n']
              \<and> boost_of n' = Some b0
              \<and> nodes_of (do_boost (GroupNode gt (pre @ [n, BoostNode orig v]) fn b))
                   = ys @ [set_boost n' v]
              \<and> boost_of (set_boost n' v) = Some (b0 * v))"
proof -
  note local = do_boost_marker_children [OF assms, of gt pre orig v post fn b]
  have p: "do_operators_priority < do_boost_priority"
    by (simp add: do_operators_priority_def do_boost_priority_def)
  have deep: "do_boost (plug p (GroupNode gt (pre @ [n, BoostNode orig v] @ post) fn b))
           = do_boost (plug p (GroupNode gt (pre @ [set_boost n v] @ post) fn b))"
    by (rule do_boost_plug_cong) (use local in simp_all)
  have exact: "no_boost_marker (plug p (GroupNode gt (pre @ [n] @ post) fn b)) \<longrightarrow>
           do_boost (plug p (GroupNode gt (pre @ [n, BoostNode orig v] @ post) fn b))
             = plug p (GroupNode gt (pre @ [set_boost n v] @ post) fn b)"
  proof
    assume "no_boost_marker (plug p (GroupNode gt (pre @ [n] @ post) fn b))"
    then have "no_boost_marker (plug p (GroupNode gt (pre @ [set_boost n v] @ post) fn b))"
      by (rule no_boost_marker_plug)
    then have "do_boost (plug p (GroupNode gt (pre @ [set_boost n v] @ post) fn b))
                 = plug p (GroupNode gt (pre @ [set_boost n v] @ post) fn b)"
      by (rule do_boost_no_marker)
    with deep show "do_boost (plug p (GroupNode gt (pre @ [n, BoostNode orig v] @ post) fn b))
             = plug p (GroupNode gt (pre @ [set_boost n v] @ post) fn b)"
      by (rule trans)
  qed
  from p deep exact local show ?thesis by blast
qed

text \<open>
  \<^verbatim>\<open>x (there^2)\<close>, where \<^verbatim>\<open>there\<close> already carries the boost 1.5: inside the nested group the
  marker is gone and the word has the boost 1.5 * 2.
\<close>

theorem do_boost_applies_marker_witness:
  "has_boost (TextNode Word ''there'' None (3/2::real) None None)
   \<and> boost_of (TextNode Word ''there'' None (3/2::real) None None) = Some (3/2)
   \<and> no_boost_marker (plug (Child AndGroup [WordNode ''x''] Top [] None 1)
        (GroupNode AndGroup ([] @ [TextNode Word ''there'' None (3/2::real) None None] @ [])
           None 1))
   \<and> do_boost (plug (Child AndGroup [WordNode ''x''] Top [] None 1)
        (GroupNode AndGroup
           ([] @ [TextNode Word ''there'' None (3/2) None None, BoostNode ''^2'' 2] @ [])
           None (1::real)))
     = GroupNode AndGroup
        [WordNode ''x'', GroupNode AndGroup [TextNode Word ''there'' None 3 None None] None 1]
        None 1"
proof -
  let ?n = "TextNode Word ''there'' None (3/2::real) None None"
  let ?p = "Child AndGroup [WordNode ''x''] Top [] None (1::real)"
  have h1: "has_boost ?n" by simp
  have h2: "boost_of ?n = Some (3/2)" by simp
  have h3: "no_boost_marker (plug ?p (GroupNode AndGroup ([] @ [?n] @ []) None 1))"
    by (simp add: WordNode_def)
  from do_boost_applies_marker [OF h1 h2, of ?p AndGroup "[]" "''^2''" 2 "[]" None 1]
  have "no_boost_marker (plug ?p (GroupNode AndGroup ([] @ [?n] @ []) None 1)) \<longrightarrow>
        do_boost (plug ?p (GroupNode AndGroup ([] @ [?n, BoostNode ''^2'' 2] @ []) None 1))
          = plug ?p (GroupNode AndGroup ([] @ [set_boost ?n 2] @ []) None 1)"
    by (elim conjE)
  with h3 have "do_boost (plug ?p (GroupNode AndGroup ([] @ [?n, BoostNode ''^2'' 2] @ []) None 1))
          = plug ?p (GroupNode AndGroup ([] @ [set_boost ?n 2] @ []) None 1)"
    by (rule rev_mp)
  also have "\<dots> = GroupNode AndGroup
        [WordNode ''x'', GroupNode AndGroup [TextNode Word ''there'' None 3 None None] None 1]
        None 1"
    by simp
  finally show ?thesis using h1 h2 h3 by blast
qed

section \<open>PlusMinusPlugin.do\_plusminus\<close>

text \<open>
  The three groups \<^verbatim>\<open>required\<close>, \<^verbatim>\<open>optional\<close>, \<^verbatim>\<open>banned\<close> are kept as their lists of
  children, and \<^verbatim>\<open>next\<close>, which in the source is a reference to one of the three, as the
  name of the group it refers to. The truth value of a group (\<^verbatim>\<open>if required:\<close>) is that
  it has children (section 4.10: "if any required operands"). The input group gives its
  children only; its type, boost and field name are not read.
\<close>

datatype bucket = Required | Optional | Banned

definition do_plusminus_step ::
  "'b node list \<times> 'b node list \<times> 'b node list \<times> bucket \<Rightarrow> 'b node
     \<Rightarrow> 'b node list \<times> 'b node list \<times> 'b node list \<times> bucket" where
  "do_plusminus_step state node =
     (case state of (required, optional, banned, next) \<Rightarrow>
        (case node of
           Plus \<Rightarrow> (required, optional, banned, Required)
         | Minus \<Rightarrow> (required, optional, banned, Banned)
         | _ \<Rightarrow>
            (case next of
               Required \<Rightarrow> (required @ [node], optional, banned, Optional)
             | Optional \<Rightarrow> (required, optional @ [node], banned, Optional)
             | Banned \<Rightarrow> (required, optional, banned @ [node], Optional))))"

definition do_plusminus :: "('b::one) node \<Rightarrow> 'b node" where
  "do_plusminus grp =
     (case foldl do_plusminus_step ([], [], [], Optional) (nodes_of grp) of
        (required, optional, banned, next) \<Rightarrow>
          (let grp = new_group OrGroup optional;
               grp = (if required \<noteq> []
                      then new_group AndMaybeGroup [new_group AndGroup required, grp]
                      else grp);
               grp = (if banned \<noteq> []
                      then new_group AndNotGroup [grp, new_group OrGroup banned]
                      else grp)
           in grp))"

text \<open>
  The partition in the words of the specification: an operand is a node that is neither
  a plus nor a minus marker; the marker most recently seen when an operand is reached,
  with the reset after each operand, is the node immediately before it. \<open>bucket_after seen\<close>
  names the bucket that the next operand goes to once the nodes \<open>seen\<close> have gone by;
  \<open>operands_in\<close> lists the operands of a bucket in their order.
\<close>

fun is_plusminus :: "'b node \<Rightarrow> bool" where
  "is_plusminus Plus = True"
| "is_plusminus Minus = True"
| "is_plusminus _ = False"

definition bucket_after :: "'b node list \<Rightarrow> bucket" where
  "bucket_after seen =
     (if seen = [] then Optional
      else (case last seen of Plus \<Rightarrow> Required | Minus \<Rightarrow> Banned | _ \<Rightarrow> Optional))"

definition operands_in :: "bucket \<Rightarrow> 'b node list \<Rightarrow> 'b node list" where
  "operands_in k nodes =
     map (\<lambda>i. nodes ! i)
       (filter (\<lambda>i. \<not> is_plusminus (nodes ! i) \<and> bucket_after (take i nodes) = k)
          [0..<length nodes])"

section \<open>The result of do\_plusminus\<close>

lemma operands_in_snoc:
  "operands_in k (xs @ [x]) =
     operands_in k xs @ (if \<not> is_plusminus x \<and> bucket_after xs = k then [x] else [])"
proof -
  have "filter (\<lambda>i. \<not> is_plusminus ((xs @ [x]) ! i) \<and> bucket_after (take i (xs @ [x])) = k)
          [0..<length xs]
        = filter (\<lambda>i. \<not> is_plusminus (xs ! i) \<and> bucket_after (take i xs) = k) [0..<length xs]"
    by (rule filter_cong) (auto simp: nth_append)
  moreover have "map (\<lambda>i. (xs @ [x]) ! i)
          (filter (\<lambda>i. \<not> is_plusminus (xs ! i) \<and> bucket_after (take i xs) = k) [0..<length xs])
        = map (\<lambda>i. xs ! i)
          (filter (\<lambda>i. \<not> is_plusminus (xs ! i) \<and> bucket_after (take i xs) = k) [0..<length xs])"
    by (rule map_cong) (auto simp: nth_append)
  ultimately show ?thesis
    by (simp add: operands_in_def)
qed

lemma operands_in_Nil: "operands_in k [] = []"
  by (simp add: operands_in_def)

lemma do_plusminus_step_snoc:
  "do_plusminus_step (operands_in Required xs, operands_in Optional xs, operands_in Banned xs,
       bucket_after xs) x
   = (operands_in Required (xs @ [x]), operands_in Optional (xs @ [x]),
      operands_in Banned (xs @ [x]), bucket_after (xs @ [x]))"
  by (cases x; cases "bucket_after xs")
     (simp_all add: do_plusminus_step_def operands_in_snoc bucket_after_def)

lemma do_plusminus_loop:
  "foldl do_plusminus_step ([], [], [], Optional) nodes
   = (operands_in Required nodes, operands_in Optional nodes, operands_in Banned nodes,
      bucket_after nodes)"
proof (induction nodes rule: rev_induct)
  case Nil
  show ?case by (simp add: operands_in_Nil bucket_after_def)
next
  case (snoc x xs)
  then show ?case by (simp only: foldl_append foldl_Cons foldl_Nil do_plusminus_step_snoc)
qed

text \<open>
  C5. \<^verbatim>\<open>do_plusminus\<close> sorts the nodes that are not plus or minus markers into required,
  optional and banned operands by the marker immediately before each, and returns
  \<open>AndNot(AndMaybe(And required, Or optional), Or banned)\<close> when there are required and
  banned operands, \<open>AndMaybe(And required, Or optional)\<close> when only required ones,
  \<open>AndNot(Or optional, Or banned)\<close> when only banned ones, and \<open>Or optional\<close> otherwise.
  For \<^verbatim>\<open>+a b -c\<close> (whitespace is gone by priority 510) the result is
  \<open>AndNot(AndMaybe(And(a), Or(b)), Or(c))\<close>.
\<close>

theorem do_plusminus_shape:
  fixes grp :: "('b::one) node"
  shows "do_plusminus grp =
     (let required = operands_in Required (nodes_of grp);
          optional = operands_in Optional (nodes_of grp);
          banned = operands_in Banned (nodes_of grp)
      in if required \<noteq> [] \<and> banned \<noteq> []
           then new_group AndNotGroup
                  [new_group AndMaybeGroup [new_group AndGroup required, new_group OrGroup optional],
                   new_group OrGroup banned]
         else if required \<noteq> []
           then new_group AndMaybeGroup [new_group AndGroup required, new_group OrGroup optional]
         else if banned \<noteq> []
           then new_group AndNotGroup [new_group OrGroup optional, new_group OrGroup banned]
         else new_group OrGroup optional)
   \<and> do_plusminus (GroupNode gt [Plus, WordNode ''a'', WordNode ''b'', Minus, WordNode ''c''] fn b)
     = new_group AndNotGroup
         [new_group AndMaybeGroup
            [new_group AndGroup [WordNode ''a''], new_group OrGroup [WordNode ''b'']],
          new_group OrGroup [WordNode ''c'']]"
proof
  show "do_plusminus grp =
     (let required = operands_in Required (nodes_of grp);
          optional = operands_in Optional (nodes_of grp);
          banned = operands_in Banned (nodes_of grp)
      in if required \<noteq> [] \<and> banned \<noteq> []
           then new_group AndNotGroup
                  [new_group AndMaybeGroup [new_group AndGroup required, new_group OrGroup optional],
                   new_group OrGroup banned]
         else if required \<noteq> []
           then new_group AndMaybeGroup [new_group AndGroup required, new_group OrGroup optional]
         else if banned \<noteq> []
           then new_group AndNotGroup [new_group OrGroup optional, new_group OrGroup banned]
         else new_group OrGroup optional)"
    by (simp add: do_plusminus_def do_plusminus_loop Let_def)
  show "do_plusminus (GroupNode gt [Plus, WordNode ''a'', WordNode ''b'', Minus, WordNode ''c''] fn b)
     = new_group AndNotGroup
         [new_group AndMaybeGroup
            [new_group AndGroup [WordNode ''a''], new_group OrGroup [WordNode ''b'']],
          new_group OrGroup [WordNode ''c'']]"
    by (simp add: do_plusminus_def do_plusminus_step_def WordNode_def)
qed

section \<open>GroupPlugin.do\_groups\<close>

text \<open>
  \<^verbatim>\<open>parser.group()\<close> makes an empty group of the parser's default type, here the parameter
  \<open>pgroup\<close>. The stack is a Python list whose last element is the current level.
  \<^verbatim>\<open>stack[-1]\<close> raises \<^verbatim>\<open>IndexError\<close> on an empty list, and so does \<^verbatim>\<open>stack[0]\<close>.
\<close>

definition append_to_last :: "'b node list \<Rightarrow> 'b node \<Rightarrow> error + 'b node list" where
  "append_to_last stack node =
     (if stack = [] then Inl IndexError
      else Inr (butlast stack @ [extend (last stack) [node]]))"

fun do_groups_loop :: "gtype \<Rightarrow> ('b::one) node list \<Rightarrow> 'b node list \<Rightarrow> error + 'b node list" where
  "do_groups_loop pgroup stack [] = Inr stack"
| "do_groups_loop pgroup stack (node # rest) =
     (case node of
        OpenBracket \<Rightarrow> do_groups_loop pgroup (stack @ [new_group pgroup []]) rest
      | CloseBracket \<Rightarrow>
          if length stack > 1
          then (case append_to_last (butlast stack) (last stack) of
                  Inl e \<Rightarrow> Inl e
                | Inr stack' \<Rightarrow> do_groups_loop pgroup stack' rest)
          else do_groups_loop pgroup stack rest
      | _ \<Rightarrow>
          (case append_to_last stack node of
             Inl e \<Rightarrow> Inl e
           | Inr stack' \<Rightarrow> do_groups_loop pgroup stack' rest))"

text \<open>
  The end of the filter: a top-level group whose only child is a group is replaced by
  that child, which takes the top-level group's boost. \<open>topg\<close> is the source's \<^verbatim>\<open>top\<close>.
\<close>

fun unwrap_single :: "'b node \<Rightarrow> 'b node" where
  "unwrap_single (GroupNode gt [GroupNode gt' ns fn' b'] fn b) = GroupNode gt' ns fn' b"
| "unwrap_single topg = topg"

definition do_groups :: "gtype \<Rightarrow> ('b::one) node \<Rightarrow> error + 'b node" where
  "do_groups pgroup grp =
     (case do_groups_loop pgroup [new_group pgroup []] (nodes_of grp) of
        Inl e \<Rightarrow> Inl e
      | Inr stack \<Rightarrow>
          (case stack of
             [] \<Rightarrow> Inl IndexError
           | topg # levels \<Rightarrow>
               (let topg = (if length stack > 1
                            then foldl (\<lambda>topg ls. extend topg (nodes_of ls)) topg levels
                            else topg)
                in Inr (unwrap_single topg))))"

fun is_open :: "'b node \<Rightarrow> bool" where
  "is_open OpenBracket = True"
| "is_open _ = False"

fun is_close :: "'b node \<Rightarrow> bool" where
  "is_close CloseBracket = True"
| "is_close _ = False"

section \<open>Unbalanced open brackets\<close>

lemma append_to_last_ok:
  "stack \<noteq> [] \<Longrightarrow> \<exists>stack'. append_to_last stack node = Inr stack' \<and> length stack' = length stack"
  by (simp add: append_to_last_def)

lemma do_groups_loop_depth:
  "stack \<noteq> [] \<Longrightarrow>
   \<exists>stack'. do_groups_loop pg stack ns = Inr stack'
     \<and> length stack + length (filter is_open ns) \<le> length stack' + length (filter is_close ns)"
proof (induction ns arbitrary: stack)
  case Nil
  then show ?case by simp
next
  case (Cons node rest)
  show ?case
  proof (cases "is_open node")
    case True
    then have node: "node = OpenBracket" by (cases node) simp_all
    from Cons.IH [of "stack @ [new_group pg []]"] show ?thesis
      by (auto simp: node)
  next
    case notopen: False
    show ?thesis
    proof (cases "is_close node")
      case True
      then have node: "node = CloseBracket" by (cases node) simp_all
      show ?thesis
      proof (cases "length stack > 1")
        case True
        then have "butlast stack \<noteq> []" by (cases stack rule: rev_cases) auto
        from append_to_last_ok [OF this, of "last stack"] obtain stack' where
          s: "append_to_last (butlast stack) (last stack) = Inr stack'"
             "length stack' = length (butlast stack)" by blast
        with True have "stack' \<noteq> []" by auto
        from Cons.IH [OF this] s True show ?thesis
          by (auto simp: node)
      next
        case False
        with Cons.IH [OF Cons.prems] show ?thesis
          by (auto simp: node)
      qed
    next
      case False
      from append_to_last_ok [OF Cons.prems, of node] obtain stack' where
        s: "append_to_last stack node = Inr stack'" "length stack' = length stack" by blast
      with Cons.prems have "stack' \<noteq> []" by auto
      from Cons.IH [OF this] s notopen False show ?thesis
        by (cases node) auto
    qed
  qed
qed

lemma foldl_extend:
  "foldl (\<lambda>topg ls. extend topg (nodes_of ls)) topg levels
     = extend topg (concat (map nodes_of levels))"
proof (induction levels arbitrary: topg)
  case Nil
  show ?case by (cases topg) simp_all
next
  case (Cons l ls)
  show ?case by (cases topg) (simp_all add: Cons.IH)
qed

subsection \<open>The stack of the loop and the brackets of the input\<close>

text \<open>
  \<open>unparse\<close> writes a tree back as a flat sequence, a group as an open bracket, its
  children and a close bracket; \<open>tokens_of\<close> does so for the children of a stack level, and
  \<open>stack_tokens\<close> for a whole stack, with an open bracket in front of every level above
  the base. \<open>matched d ns\<close> is the sequence \<open>ns\<close> read at bracket depth \<open>d\<close> without the
  close brackets that have no open bracket to close. \<open>made_by_parser\<close> holds of a node in
  which every group is a \<^verbatim>\<open>parser.group()\<close>: the parser's group type, no field name,
  boost \<open>1.0\<close>.
\<close>

fun unparse :: "'b node \<Rightarrow> 'b node list" where
  "unparse (GroupNode gt ns fn b) = OpenBracket # concat (map unparse ns) @ [CloseBracket]"
| "unparse n = [n]"

definition tokens_of :: "'b node \<Rightarrow> 'b node list" where
  "tokens_of level = concat (map unparse (nodes_of level))"

fun stack_tokens :: "'b node list \<Rightarrow> 'b node list" where
  "stack_tokens [] = []"
| "stack_tokens (base # levels) =
     tokens_of base @ concat (map (\<lambda>level. OpenBracket # tokens_of level) levels)"

fun matched :: "nat \<Rightarrow> 'b node list \<Rightarrow> 'b node list" where
  "matched d [] = []"
| "matched d (OpenBracket # xs) = OpenBracket # matched (Suc d) xs"
| "matched 0 (CloseBracket # xs) = matched 0 xs"
| "matched (Suc d) (CloseBracket # xs) = CloseBracket # matched d xs"
| "matched d (x # xs) = x # matched d xs"

fun made_by_parser :: "gtype \<Rightarrow> ('b::one) node \<Rightarrow> bool" where
  "made_by_parser pgroup (GroupNode gt ns fn b) =
     (gt = pgroup \<and> fn = None \<and> b = 1 \<and> list_all (made_by_parser pgroup) ns)"
| "made_by_parser pgroup n = True"

lemma list_all_last_butlast:
  "stack \<noteq> [] \<Longrightarrow> list_all P stack \<Longrightarrow> P (last stack) \<and> list_all P (butlast stack)"
  by (cases stack rule: rev_cases) auto

lemma stack_tokens_snoc:
  "stack \<noteq> [] \<Longrightarrow> stack_tokens (stack @ [level]) = stack_tokens stack @ OpenBracket # tokens_of level"
  by (cases stack) simp_all

lemma tokens_of_extend:
  "is_group level \<Longrightarrow> tokens_of (extend level [x]) = tokens_of level @ unparse x"
  by (cases level) (simp_all add: tokens_of_def)

lemma stack_tokens_append_to_last:
  assumes "stack \<noteq> []" and "is_group (last stack)"
  shows "\<exists>stack'. append_to_last stack x = Inr stack' \<and> length stack' = length stack
           \<and> stack_tokens stack' = stack_tokens stack @ unparse x
           \<and> butlast stack' = butlast stack \<and> last stack' = extend (last stack) [x]"
proof (cases "butlast stack = []")
  case True
  with assms(1) obtain level where s: "stack = [level]" by (cases stack rule: rev_cases) auto
  with assms(2) show ?thesis by (simp add: append_to_last_def tokens_of_extend)
next
  case False
  from assms(1) have s: "stack = butlast stack @ [last stack]" by simp
  have "stack_tokens (butlast stack @ [extend (last stack) [x]])
          = stack_tokens (butlast stack @ [last stack]) @ unparse x"
    using assms(2) False by (simp add: stack_tokens_snoc tokens_of_extend)
  with s assms(1) show ?thesis by (simp add: append_to_last_def)
qed

lemma unparse_group: "is_group g \<Longrightarrow> unparse g = OpenBracket # tokens_of g @ [CloseBracket]"
  by (cases g) (simp_all add: tokens_of_def)

lemma made_by_parser_extend:
  "is_group level \<Longrightarrow> made_by_parser pg level \<Longrightarrow> made_by_parser pg x \<Longrightarrow>
   made_by_parser pg (extend level [x])"
  by (cases level) simp_all

lemma is_group_extend: "is_group (extend level xs) = is_group level"
  by (cases level) simp_all

definition stack_ok :: "gtype \<Rightarrow> ('b::one) node list \<Rightarrow> bool" where
  "stack_ok pg stack = (stack \<noteq> [] \<and> list_all is_group stack \<and> list_all (made_by_parser pg) stack)"

lemma stack_ok_append_to_last:
  assumes "stack_ok pg stack" and "made_by_parser pg x"
    and "append_to_last stack x = Inr stack'"
  shows "stack_ok pg stack'"
proof -
  from assms(1) have ne: "stack \<noteq> []" by (simp add: stack_ok_def)
  then have s: "stack = butlast stack @ [last stack]" by simp
  from assms(1) ne have l: "is_group (last stack)" "made_by_parser pg (last stack)"
    "list_all is_group (butlast stack)" "list_all (made_by_parser pg) (butlast stack)"
    by (simp_all add: stack_ok_def list_all_last_butlast)
  from assms(3) ne have "stack' = butlast stack @ [extend (last stack) [x]]"
    by (simp add: append_to_last_def)
  with l assms(2) show ?thesis
    by (simp add: stack_ok_def is_group_extend made_by_parser_extend)
qed

lemma do_groups_loop_tokens:
  assumes "stack_ok pg stack" and "list_all (\<lambda>n. \<not> is_group n) ns"
  shows "\<exists>stack'. do_groups_loop pg stack ns = Inr stack' \<and> stack_ok pg stack'
     \<and> stack_tokens stack' = stack_tokens stack @ matched (length stack - 1) ns"
  using assms
proof (induction ns arbitrary: stack)
  case Nil
  then show ?case by simp
next
  case (Cons node rest)
  from Cons.prems have ne: "stack \<noteq> []" and flat: "list_all (\<lambda>n. \<not> is_group n) rest"
    and ng: "\<not> is_group node"
    by (simp_all add: stack_ok_def)
  from ne have s: "stack = butlast stack @ [last stack]" by simp
  from Cons.prems(1) ne have l: "is_group (last stack)" "made_by_parser pg (last stack)"
    "list_all is_group (butlast stack)" "list_all (made_by_parser pg) (butlast stack)"
    by (simp_all add: stack_ok_def list_all_last_butlast)
  show ?case
  proof (cases "is_open node")
    case True
    then have node: "node = OpenBracket" by (cases node) simp_all
    have ok: "stack_ok pg (stack @ [new_group pg []])"
      using Cons.prems(1) by (simp add: stack_ok_def new_group_def)
    from Cons.IH [OF ok flat] ne show ?thesis
      by (auto simp: node stack_tokens_snoc tokens_of_def new_group_def)
  next
    case notopen: False
    show ?thesis
    proof (cases "is_close node")
      case True
      then have node: "node = CloseBracket" by (cases node) simp_all
      show ?thesis
      proof (cases "length stack > 1")
        case deep: True
        then have bne: "butlast stack \<noteq> []" by (cases stack rule: rev_cases) auto
        then have bs: "butlast stack = butlast (butlast stack) @ [last (butlast stack)]" by simp
        from l(3) bne have lg: "is_group (last (butlast stack))"
          by (simp add: list_all_last_butlast)
        from stack_tokens_append_to_last [OF bne lg, of "last stack"] obtain stack' where
          s': "append_to_last (butlast stack) (last stack) = Inr stack'"
              "length stack' = length (butlast stack)"
              "stack_tokens stack' = stack_tokens (butlast stack) @ unparse (last stack)"
          by blast
        have okb: "stack_ok pg (butlast stack)"
          using bne l by (simp add: stack_ok_def)
        have ok: "stack_ok pg stack'"
          using okb l(2) s'(1) by (rule stack_ok_append_to_last)
        have "stack_tokens stack = stack_tokens (butlast stack) @ OpenBracket # tokens_of (last stack)"
          using stack_tokens_snoc [OF bne, of "last stack"] s by simp
        with s'(3) have t: "stack_tokens stack' = stack_tokens stack @ [CloseBracket]"
          by (simp add: unparse_group [OF l(1)])
        have d: "length stack - 1 = Suc (length stack' - 1)"
          using deep s'(2) by simp
        have step: "do_groups_loop pg stack (node # rest) = do_groups_loop pg stack' rest"
          using deep s'(1) by (simp add: node)
        have m: "matched (length stack - 1) (node # rest)
                   = CloseBracket # matched (length stack' - 1) rest"
          unfolding d node by simp
        from Cons.IH [OF ok flat] t show ?thesis
          unfolding step m by auto
      next
        case False
        with ne have "length stack - 1 = 0" by (cases stack) auto
        with Cons.IH [OF Cons.prems(1) flat] False show ?thesis
          by (auto simp: node)
      qed
    next
      case notclose: False
      from stack_tokens_append_to_last [OF ne l(1), of node] obtain stack' where
        s': "append_to_last stack node = Inr stack'" "length stack' = length stack"
            "stack_tokens stack' = stack_tokens stack @ unparse node"
        by blast
      have mp: "made_by_parser pg node" using ng by (cases node) simp_all
      have ok: "stack_ok pg stack'"
        using Cons.prems(1) mp s'(1) by (rule stack_ok_append_to_last)
      have u: "unparse node = [node]" using ng by (cases node) simp_all
      have m: "matched (length stack - 1) (node # rest) = node # matched (length stack - 1) rest"
        using notopen notclose by (cases node; cases "length stack - 1") simp_all
      have step: "do_groups_loop pg stack (node # rest) = do_groups_loop pg stack' rest"
        using notopen notclose s'(1) by (cases node) simp_all
      from Cons.IH [OF ok flat] s'(2,3) show ?thesis
        unfolding step m u by auto
    qed
  qed
qed

text \<open>
  \<open>content_of ns\<close> is the sequence \<open>ns\<close> without its bracket markers.
\<close>

definition content_of :: "'b node list \<Rightarrow> 'b node list" where
  "content_of ns = filter (\<lambda>n. \<not> is_open n \<and> \<not> is_close n) ns"

lemma content_of_append: "content_of (xs @ ys) = content_of xs @ content_of ys"
  by (simp add: content_of_def)

lemma content_of_matched: "content_of (matched d ns) = content_of ns"
  by (induction d ns rule: matched.induct) (simp_all add: content_of_def)

lemma content_of_levels:
  "content_of (concat (map (\<lambda>level. OpenBracket # tokens_of level) levels))
     = content_of (concat (map unparse (concat (map nodes_of levels))))"
  by (induction levels) (simp_all add: content_of_def tokens_of_def)

lemma tokens_of_extend_list:
  "is_group level \<Longrightarrow> tokens_of (extend level xs) = tokens_of level @ concat (map unparse xs)"
  by (cases level) (simp_all add: tokens_of_def)

lemma content_of_unwrap_single:
  "content_of (tokens_of (unwrap_single t)) = content_of (tokens_of t)"
  by (induction t rule: unwrap_single.induct) (simp_all add: content_of_def tokens_of_def)

lemma content_of_result:
  assumes "is_group base"
    and "tokens_of base @ concat (map (\<lambda>level. OpenBracket # tokens_of level) levels)
           = matched 0 ns"
  shows "content_of (tokens_of (unwrap_single (extend base (concat (map nodes_of levels)))))
           = content_of ns"
proof -
  have "content_of (tokens_of (unwrap_single (extend base (concat (map nodes_of levels)))))
      = content_of (tokens_of base) @ content_of (concat (map unparse (concat (map nodes_of levels))))"
    using assms(1) by (simp only: content_of_unwrap_single tokens_of_extend_list content_of_append)
  also have "\<dots> = content_of (matched 0 ns)"
    unfolding assms(2) [symmetric] content_of_append content_of_levels ..
  finally show ?thesis by (simp only: content_of_matched)
qed

text \<open>
  C6. On a flat sequence (no group among its nodes) with more open-bracket than
  close-bracket markers, \<^verbatim>\<open>do_groups\<close> returns a group and raises nothing. The loop ends
  with the base group and at least one further level on the stack. These levels are the
  unterminated bracket levels of the input: the input (without close brackets that match
  no open bracket) is the base level written back as a sequence, followed, for each
  further level in stack order, by an open bracket and that level written back. The
  children of these levels are appended to the base group in stack order, and the result
  is that group (or its only child, when that is a group). Written back as a sequence,
  the result holds every node of the input that is not a bracket, in the order of the
  input, and no other node that is not a bracket.
\<close>

theorem do_groups_unbalanced:
  fixes ns :: "('b::one) node list"
  assumes "list_all (\<lambda>n. \<not> is_group n) ns"
    and "length (filter is_close ns) < length (filter is_open ns)"
  shows "\<exists>base levels.
           do_groups_loop pgroup [new_group pgroup []] ns = Inr (base # levels)
         \<and> levels \<noteq> []
         \<and> tokens_of base @ concat (map (\<lambda>level. OpenBracket # tokens_of level) levels)
             = matched 0 ns
         \<and> list_all is_group (base # levels)
         \<and> list_all (made_by_parser pgroup) (base # levels)
         \<and> do_groups pgroup (GroupNode gt ns fn b)
             = Inr (unwrap_single (extend base (concat (map nodes_of levels))))
         \<and> content_of (tokens_of (unwrap_single (extend base (concat (map nodes_of levels)))))
             = content_of ns"
proof -
  have ok: "stack_ok pgroup [new_group pgroup ([] :: 'b node list)]"
    by (simp add: stack_ok_def new_group_def)
  from do_groups_loop_tokens [OF ok assms(1)] obtain stack where
    t: "do_groups_loop pgroup [new_group pgroup []] ns = Inr stack" "stack_ok pgroup stack"
       "stack_tokens stack = stack_tokens [new_group pgroup []] @ matched 0 ns"
    by auto
  from do_groups_loop_depth [of "[new_group pgroup []]" pgroup ns] t(1) have
    "1 + length (filter is_open ns) \<le> length stack + length (filter is_close ns)"
    by auto
  with assms(2) have "length stack > 1" by simp
  then obtain base levels where bl: "stack = base # levels" "levels \<noteq> []"
    by (cases stack) auto
  have d: "do_groups pgroup (GroupNode gt ns fn b)
             = Inr (unwrap_single (extend base (concat (map nodes_of levels))))"
    using t(1) bl by (simp add: do_groups_def foldl_extend)
  have m: "tokens_of base @ concat (map (\<lambda>level. OpenBracket # tokens_of level) levels)
             = matched 0 ns"
    using t(3) bl(1) by (simp add: new_group_def tokens_of_def)
  have g: "is_group base"
    using t(2) bl(1) by (simp add: stack_ok_def)
  have c: "content_of (tokens_of (unwrap_single (extend base (concat (map nodes_of levels)))))
             = content_of ns"
    using g m by (rule content_of_result)
  from t(1,2) bl d m c show ?thesis
    unfolding stack_ok_def by blast
qed

text \<open>
  \<^verbatim>\<open>(a AND b\<close>: the open bracket, the word, the operator marker (its pattern takes the
  blanks around it) and the word. Both words are children of the group returned.
\<close>

theorem do_groups_unbalanced_witness:
  "list_all (\<lambda>n. \<not> is_group n)
      [OpenBracket, WordNode ''a'', Operator InfixOperator '' AND '' AndGroup True,
       WordNode ''b'' :: real node]
   \<and> length (filter is_close
      [OpenBracket, WordNode ''a'', Operator InfixOperator '' AND '' AndGroup True,
       WordNode ''b'' :: real node])
   < length (filter is_open
      [OpenBracket, WordNode ''a'', Operator InfixOperator '' AND '' AndGroup True,
       WordNode ''b'' :: real node])
   \<and> do_groups AndGroup (GroupNode AndGroup
        [OpenBracket, WordNode ''a'', Operator InfixOperator '' AND '' AndGroup True,
         WordNode ''b''] None (1::real))
     = Inr (GroupNode AndGroup
        [WordNode ''a'', Operator InfixOperator '' AND '' AndGroup True, WordNode ''b'']
        None 1)"
proof -
  let ?ns = "[OpenBracket, WordNode ''a'', Operator InfixOperator '' AND '' AndGroup True,
       WordNode ''b'' :: real node]"
  have f: "list_all (\<lambda>n. \<not> is_group n) ?ns"
    by (simp add: WordNode_def)
  have h: "length (filter is_close ?ns) < length (filter is_open ?ns)"
    by (simp add: WordNode_def)
  from do_groups_unbalanced [OF f h, of AndGroup AndGroup None 1] obtain base levels where
    bl: "do_groups_loop AndGroup [new_group AndGroup []] ?ns = Inr (base # levels)"
        "do_groups AndGroup (GroupNode AndGroup ?ns None 1)
             = Inr (unwrap_single (extend base (concat (map nodes_of levels))))"
    by blast
  have "do_groups_loop AndGroup [new_group AndGroup []] ?ns
          = Inr [new_group AndGroup [],
                 new_group AndGroup [WordNode ''a'',
                   Operator InfixOperator '' AND '' AndGroup True, WordNode ''b'']]"
    by (simp add: WordNode_def new_group_def append_to_last_def)
  with bl(1) have "base = new_group AndGroup []"
     "levels = [new_group AndGroup [WordNode ''a'',
                   Operator InfixOperator '' AND '' AndGroup True, WordNode ''b'']]"
    by simp_all
  with bl(2) have "do_groups AndGroup (GroupNode AndGroup ?ns None 1)
     = Inr (GroupNode AndGroup
        [WordNode ''a'', Operator InfixOperator '' AND '' AndGroup True, WordNode ''b'']
        None 1)"
    by (simp add: new_group_def WordNode_def)
  with f h show ?thesis by blast
qed

section \<open>GtLtPlugin.do\_gtlt\<close>

text \<open>
  The \<^verbatim>\<open>while\<close> loop over the index \<open>i\<close>, with \<open>lasti = len(group) - 1\<close>. A comparison
  marker that is not the last node reads \<^verbatim>\<open>newgroup[-1]\<close>, which raises \<^verbatim>\<open>IndexError\<close>
  when nothing has been emitted yet; \<^verbatim>\<open>group[i + 1]\<close> is in range there. The filter does
  not descend into nested groups.
\<close>

function do_gtlt_loop :: "('b::one) node list \<Rightarrow> nat \<Rightarrow> 'b node list \<Rightarrow> error + 'b node list" where
  "do_gtlt_loop grp i newgroup =
     (if i < length grp then
        (case grp ! i of
           GtLtNode rel \<Rightarrow>
             if int i < int (length grp) - 1 then
               (if newgroup = [] then Inl IndexError
                else if is_fieldname_node (last newgroup) \<and> has_text (grp ! (i + 1)) then
                  (case make_range (grp ! (i + 1)) rel of
                     Inl e \<Rightarrow> Inl e
                   | Inr n \<Rightarrow> do_gtlt_loop grp (i + 1 + 1) (newgroup @ [n]))
                else do_gtlt_loop grp (i + 1) newgroup)
             else do_gtlt_loop grp (i + 1) newgroup
         | node \<Rightarrow> do_gtlt_loop grp (i + 1) (newgroup @ [node]))
      else Inr newgroup)"
  by pat_completeness auto
termination
  by (relation "measure (\<lambda>(grp, i, newgroup). length grp - i)") auto

declare do_gtlt_loop.simps [simp del]

definition do_gtlt :: "('b::one) node \<Rightarrow> error + 'b node" where
  "do_gtlt grp =
     (case do_gtlt_loop (nodes_of grp) 0 [] of
        Inl e \<Rightarrow> Inl e
      | Inr newgroup \<Rightarrow> Inr (extend (empty_copy grp) newgroup))"

text \<open>
  C9. The claim is that \<^verbatim>\<open>do_gtlt\<close> returns, for every group, a group without comparison
  markers, a marker with no field-name marker before it being dropped. For the query
  \<^verbatim>\<open>>100\<close>, a comparison marker followed by a word, nothing has been emitted when the
  marker is read, and the filter raises \<^verbatim>\<open>IndexError\<close> instead of returning.
\<close>

theorem do_gtlt_leading_marker_raises:
  "do_gtlt (GroupNode AndGroup [GtLtNode ''>'', WordNode ''100''] None (1::real))
     = Inl IndexError"
  by (simp add: do_gtlt_def do_gtlt_loop.simps)

section \<open>FieldsPlugin.do\_fieldnames\<close>

text \<open>
  The filter is registered at priority 100 and whitespace removal at priority 500.

  \<open>schema\<close> is \<open>Some names\<close> when \<^verbatim>\<open>parser.schema\<close> counts as true, \<open>names\<close> being the
  field names it contains, and \<open>None\<close> otherwise.

  First pass (only with \<^verbatim>\<open>removeunknown\<close> and a schema). \<^verbatim>\<open>text\<close> is \<^verbatim>\<open>None\<close> or a string, and
  \<^verbatim>\<open>elif text:\<close> holds for a non-empty string. A field-name marker whose name is not in
  the schema stores its original text in \<^verbatim>\<open>text\<close> and is skipped. Otherwise, when
  \<^verbatim>\<open>text\<close> is pending, it is put in front of the node's text if the node has text, or
  appended as a word of its own; then the node is appended. Text still pending at the
  end becomes a last word.
\<close>

definition do_fieldnames_priority :: nat where
  "do_fieldnames_priority = 100"

definition remove_whitespace_priority :: nat where
  "remove_whitespace_priority = 500"

fun original_of :: "'b node \<Rightarrow> string" where
  "original_of (FieldnameNode f original) = original"
| "original_of (BoostNode original b) = original"
| "original_of _ = []"

fun prepend_text :: "string \<Rightarrow> 'b node \<Rightarrow> 'b node" where
  "prepend_text text (TextNode k t fn b sc ec) = TextNode k (text @ t) fn b sc ec"
| "prepend_text text n = n"

definition truthy :: "string option \<Rightarrow> bool" where
  "truthy text = (case text of None \<Rightarrow> False | Some s \<Rightarrow> s \<noteq> [])"

definition remove_unknown_step ::
  "string list \<Rightarrow> ('b::one) node list \<times> string option \<Rightarrow> 'b node
     \<Rightarrow> 'b node list \<times> string option" where
  "remove_unknown_step schema state node =
     (case state of (newgroup, text) \<Rightarrow>
        if is_fieldname_node node \<and> fieldname_of node \<notin> Some ` set schema
          then (newgroup, Some (original_of node))
        else if truthy text then
          (if has_text node
             then (newgroup @ [prepend_text (the text) node], None)
             else (newgroup @ [WordNode (the text)] @ [node], None))
        else (newgroup @ [node], text))"

definition remove_unknown :: "string list \<Rightarrow> ('b::one) node list \<Rightarrow> 'b node list" where
  "remove_unknown schema nodes =
     (case foldl (remove_unknown_step schema) ([], None) nodes of
        (newgroup, text) \<Rightarrow>
          if truthy text then newgroup @ [WordNode (the text)] else newgroup)"

text \<open>
  Second pass: the loop runs from the end of the group backward. \<open>earlier\<close> holds the
  nodes \<^verbatim>\<open>group[0..i]\<close> still to visit, last first, so that its head is \<^verbatim>\<open>group[i]\<close> and the
  node after the head is \<^verbatim>\<open>group[i - 1]\<close>; with a single node left, \<open>i\<close> is 0. A
  field-name marker becomes a word of its original text, a nested group is filtered
  recursively (\<open>rec\<close>). If the node is not whitespace and the node before it is a
  field-name marker, the node takes the marker's name (\<^verbatim>\<open>override=False\<close>) and the marker
  is skipped. \<open>newgroup\<close> is reversed at the end.
\<close>

definition convert_node :: "(('b::one) node \<Rightarrow> 'b node) \<Rightarrow> 'b node \<Rightarrow> 'b node" where
  "convert_node rec node =
     (if is_fieldname_node node then WordNode (original_of node)
      else if is_group node then rec node
      else node)"

fun fieldnames_backward ::
  "(('b::one) node \<Rightarrow> 'b node) \<Rightarrow> 'b node list \<Rightarrow> 'b node list \<Rightarrow> 'b node list" where
  "fieldnames_backward rec [] newgroup = newgroup"
| "fieldnames_backward rec [node] newgroup = newgroup @ [convert_node rec node]"
| "fieldnames_backward rec (node # prev # earlier) newgroup =
     (if \<not> is_ws (convert_node rec node) \<and> is_fieldname_node prev
      then fieldnames_backward rec earlier
             (newgroup @ [set_fieldname (the (fieldname_of prev)) False (convert_node rec node)])
      else fieldnames_backward rec (prev # earlier) (newgroup @ [convert_node rec node]))"

lemma convert_node_cong:
  "(is_group node \<Longrightarrow> f node = g node) \<Longrightarrow> convert_node f node = convert_node g node"
  by (simp add: convert_node_def)

lemma fieldnames_backward_cong [fundef_cong]:
  assumes "earlier = earlier'" and "newgroup = newgroup'"
    and "\<And>n. n \<in> set earlier' \<Longrightarrow> is_group n \<Longrightarrow> f n = g n"
  shows "fieldnames_backward f earlier newgroup = fieldnames_backward g earlier' newgroup'"
  unfolding assms(1,2) using assms(3)
proof (induction g earlier' newgroup' rule: fieldnames_backward.induct)
  case (1 rec newgroup)
  show ?case by simp
next
  case (2 rec node newgroup)
  then have "convert_node f node = convert_node rec node"
    by (intro convert_node_cong) simp
  then show ?case by simp
next
  case (3 rec node prev earlier newgroup)
  have conv: "convert_node f node = convert_node rec node"
    using "3.prems" by (intro convert_node_cong) simp
  show ?case
  proof (cases "\<not> is_ws (convert_node rec node) \<and> is_fieldname_node prev")
    case True
    with "3.IH"(1) "3.prems" have
      "fieldnames_backward f earlier
         (newgroup @ [set_fieldname (the (fieldname_of prev)) False (convert_node rec node)])
       = fieldnames_backward rec earlier
         (newgroup @ [set_fieldname (the (fieldname_of prev)) False (convert_node rec node)])"
      by simp
    with True show ?thesis by (simp add: conv)
  next
    case False
    with "3.IH"(2) "3.prems" have
      "fieldnames_backward f (prev # earlier) (newgroup @ [convert_node rec node])
       = fieldnames_backward rec (prev # earlier) (newgroup @ [convert_node rec node])"
      by simp
    with False show ?thesis by (simp only: fieldnames_backward.simps conv if_False)
  qed
qed

lemma remove_unknown_step_groups:
  "remove_unknown_step schema (newgroup, tx) node = (newgroup', tx') \<Longrightarrow>
   n \<in> set newgroup' \<Longrightarrow> is_group n \<Longrightarrow> n \<in> set newgroup \<or> n = node"
  by (cases node)
     (auto simp: remove_unknown_step_def WordNode_def split: if_splits)

lemma remove_unknown_loop_groups:
  "foldl (remove_unknown_step schema) (newgroup, tx) nodes = (newgroup', tx') \<Longrightarrow>
   n \<in> set newgroup' \<Longrightarrow> is_group n \<Longrightarrow> n \<in> set newgroup \<or> n \<in> set nodes"
proof (induction nodes arbitrary: newgroup tx)
  case Nil
  then show ?case by simp
next
  case (Cons node nodes)
  obtain ng1 t1 where s: "remove_unknown_step schema (newgroup, tx) node = (ng1, t1)"
    by (cases "remove_unknown_step schema (newgroup, tx) node")
  with Cons.prems have "n \<in> set ng1 \<or> n \<in> set nodes"
    using Cons.IH [of ng1 t1] by simp
  with remove_unknown_step_groups [OF s] Cons.prems(3) show ?case by auto
qed

lemma remove_unknown_groups:
  "n \<in> set (remove_unknown schema nodes) \<Longrightarrow> is_group n \<Longrightarrow> n \<in> set nodes"
proof -
  assume n: "n \<in> set (remove_unknown schema nodes)" and g: "is_group n"
  obtain ng t where s: "foldl (remove_unknown_step schema) ([], None) nodes = (ng, t)"
    by (cases "foldl (remove_unknown_step schema) ([], None) nodes")
  with n g have "n \<in> set ng"
    by (auto simp: remove_unknown_def WordNode_def split: if_splits)
  with remove_unknown_loop_groups [OF s] g show ?thesis by auto
qed

function do_fieldnames :: "bool \<Rightarrow> string list option \<Rightarrow> ('b::one) node \<Rightarrow> 'b node" where
  "do_fieldnames removeunknown schema (GroupNode gt nodes fn b) =
     extend (empty_copy (GroupNode gt nodes fn b))
       (rev (fieldnames_backward (do_fieldnames removeunknown schema)
          (rev (if removeunknown \<and> schema \<noteq> None
                then remove_unknown (the schema) nodes
                else nodes))
          []))"
| "do_fieldnames removeunknown schema (TextNode k t fn b sc ec) = TextNode k t fn b sc ec"
| "do_fieldnames removeunknown schema (RangeNode s e sx ex fn b sc ec) = RangeNode s e sx ex fn b sc ec"
| "do_fieldnames removeunknown schema Whitespace = Whitespace"
| "do_fieldnames removeunknown schema (BoostNode orig v) = BoostNode orig v"
| "do_fieldnames removeunknown schema OpenBracket = OpenBracket"
| "do_fieldnames removeunknown schema CloseBracket = CloseBracket"
| "do_fieldnames removeunknown schema (FieldnameNode f orig) = FieldnameNode f orig"
| "do_fieldnames removeunknown schema (GtLtNode rel) = GtLtNode rel"
| "do_fieldnames removeunknown schema Plus = Plus"
| "do_fieldnames removeunknown schema Minus = Minus"
| "do_fieldnames removeunknown schema (Operator ot txt g la) = Operator ot txt g la"
  by pat_completeness auto
termination
proof (relation "measure (\<lambda>(removeunknown, schema, n). size n)")
  show "wf (measure (\<lambda>(removeunknown, schema, n). size n))" by simp
next
  fix removeunknown :: bool and schema :: "string list option" and gt
    and nodes :: "('b::one) node list" and fn :: "string option" and b :: 'b and x :: "'b node"
  assume x: "x \<in> set (rev (if removeunknown \<and> schema \<noteq> None
                then remove_unknown (the schema) nodes else nodes))"
    and g: "is_group x"
  then have "x \<in> set nodes"
    by (auto dest: remove_unknown_groups split: if_splits)
  then have "size x < Suc (size_list size nodes)"
    by (simp add: less_Suc_eq_le size_list_estimation')
  then show "((removeunknown, schema, x), removeunknown, schema, GroupNode gt nodes fn b)
            \<in> measure (\<lambda>(removeunknown, schema, n). size n)"
    by simp
qed

section \<open>Properties of do\_fieldnames\<close>

text \<open>
  C4. The claim is that the original text of every unknown field marker appears in the
  output, also when two unknown markers are adjacent. For \<^verbatim>\<open>x:y:a\<close> with a schema that
  knows neither \<^verbatim>\<open>x\<close> nor \<^verbatim>\<open>y\<close>, the second marker overwrites the pending text of the
  first: the output is the single word \<^verbatim>\<open>y:a\<close>, and \<^verbatim>\<open>x:\<close> is gone.
\<close>

theorem do_fieldnames_adjacent_unknown_markers:
  "do_fieldnames True (Some [''title''])
     (GroupNode AndGroup
        [FieldnameNode ''x'' ''x:'', FieldnameNode ''y'' ''y:'', WordNode ''a''] None (1::real))
   = GroupNode AndGroup [WordNode ''y:a''] None 1"
  by (simp add: remove_unknown_def remove_unknown_step_def truthy_def convert_node_def
        WordNode_def)

subsection \<open>The first pass\<close>

text \<open>
  The end of the first pass, as a function of the loop's final state, and the test that
  makes the first pass skip a marker.
\<close>

definition flush :: "('b::one) node list \<times> string option \<Rightarrow> 'b node list" where
  "flush state = (case state of (newgroup, tx) \<Rightarrow>
     if truthy tx then newgroup @ [WordNode (the tx)] else newgroup)"

lemma remove_unknown_flush:
  "remove_unknown schema nodes = flush (foldl (remove_unknown_step schema) ([], None) nodes)"
  by (simp add: remove_unknown_def flush_def)

definition unknown_marker :: "string list \<Rightarrow> 'b node \<Rightarrow> bool" where
  "unknown_marker schema node =
     (is_fieldname_node node \<and> fieldname_of node \<notin> Some ` set schema)"

lemma remove_unknown_step_shift:
  "remove_unknown_step schema (ng, tx) x =
     (ng @ fst (remove_unknown_step schema ([], tx) x),
      snd (remove_unknown_step schema ([], tx) x))"
  by (simp add: remove_unknown_step_def)

lemma remove_unknown_loop_shift:
  "foldl (remove_unknown_step schema) (ng, tx) xs =
     (ng @ fst (foldl (remove_unknown_step schema) ([], tx) xs),
      snd (foldl (remove_unknown_step schema) ([], tx) xs))"
proof (induction xs arbitrary: ng tx)
  case Nil
  show ?case by simp
next
  case (Cons x xs)
  obtain d t' where d: "remove_unknown_step schema ([], tx) x = (d, t')"
    by (cases "remove_unknown_step schema ([], tx) x")
  have "remove_unknown_step schema (ng, tx) x = (ng @ d, t')"
    using remove_unknown_step_shift [of schema ng tx x] d by simp
  then show ?case
    using Cons.IH [of "ng @ d" t'] Cons.IH [of d t'] d by simp
qed

lemma flush_shift:
  "flush (foldl (remove_unknown_step schema) (ng, tx) xs)
     = ng @ flush (foldl (remove_unknown_step schema) ([], tx) xs)"
  by (subst remove_unknown_loop_shift) (simp add: flush_def split: prod.splits)

lemma flush_falsy:
  "\<not> truthy tx \<Longrightarrow>
   flush (foldl (remove_unknown_step schema) (ng, tx) xs)
     = flush (foldl (remove_unknown_step schema) (ng, None) xs)"
proof (induction xs arbitrary: ng tx)
  case Nil
  then show ?case by (simp add: flush_def truthy_def)
next
  case (Cons x xs)
  show ?case
  proof (cases "unknown_marker schema x")
    case True
    then show ?thesis by (simp add: remove_unknown_step_def unknown_marker_def)
  next
    case False
    with Cons.prems have
      "remove_unknown_step schema (ng, tx) x = (ng @ [x], tx)"
      "remove_unknown_step schema (ng, None) x = (ng @ [x], None)"
      by (auto simp: remove_unknown_step_def unknown_marker_def truthy_def)
    with Cons.IH [OF Cons.prems, of "ng @ [x]"] show ?thesis by simp
  qed
qed

lemma remove_unknown_step_known:
  "\<not> unknown_marker schema m \<Longrightarrow>
   \<exists>A' t'. remove_unknown_step schema (A, tx) m = (A', t') \<and> \<not> truthy t'
     \<and> (\<exists>A'' m'. A' = A'' @ [m'] \<and> (m' = m \<or> (\<exists>s. m' = prepend_text s m)))"
  by (auto simp: remove_unknown_step_def unknown_marker_def truthy_def)

lemma remove_unknown_split:
  assumes "\<not> unknown_marker schema m"
  shows "remove_unknown schema (pre @ m # post)
           = remove_unknown schema (pre @ [m]) @ remove_unknown schema post"
proof -
  obtain A tx where S: "foldl (remove_unknown_step schema) ([], None) pre = (A, tx)"
    by (cases "foldl (remove_unknown_step schema) ([], None) pre")
  from remove_unknown_step_known [OF assms, of A tx] obtain A' t' where
    s: "remove_unknown_step schema (A, tx) m = (A', t')" "\<not> truthy t'" by blast
  have "remove_unknown schema (pre @ m # post)
          = flush (foldl (remove_unknown_step schema) (A', t') post)"
    by (simp add: remove_unknown_flush S s)
  also have "\<dots> = flush (foldl (remove_unknown_step schema) (A', None) post)"
    using s(2) by (rule flush_falsy)
  also have "\<dots> = A' @ remove_unknown schema post"
    by (simp add: flush_shift [of schema A'] remove_unknown_flush)
  finally show ?thesis
    using s by (simp add: remove_unknown_flush S flush_def)
qed

lemma remove_unknown_last:
  assumes "\<not> unknown_marker schema m"
  shows "\<exists>A m'. remove_unknown schema (pre @ [m]) = A @ [m']
           \<and> (m' = m \<or> (\<exists>s. m' = prepend_text s m))"
proof -
  obtain A tx where S: "foldl (remove_unknown_step schema) ([], None) pre = (A, tx)"
    by (cases "foldl (remove_unknown_step schema) ([], None) pre")
  from remove_unknown_step_known [OF assms, of A tx] obtain A' t' A'' m' where
    s: "remove_unknown_step schema (A, tx) m = (A', t')" "\<not> truthy t'"
       "A' = A'' @ [m']" "m' = m \<or> (\<exists>s. m' = prepend_text s m)" by blast
  then have "remove_unknown schema (pre @ [m]) = A'' @ [m']"
    by (simp add: remove_unknown_flush S flush_def)
  with s(4) show ?thesis by blast
qed

subsection \<open>The second pass\<close>

lemma backward_consume:
  "\<not> is_ws (convert_node rec node) \<Longrightarrow> is_fieldname_node prev \<Longrightarrow>
   fieldnames_backward rec (node # prev # earlier) ng
     = fieldnames_backward rec earlier
         (ng @ [set_fieldname (the (fieldname_of prev)) False (convert_node rec node)])"
  by simp

lemma backward_keep:
  "is_ws (convert_node rec node) \<or> \<not> is_fieldname_node prev \<Longrightarrow>
   fieldnames_backward rec (node # prev # earlier) ng
     = fieldnames_backward rec (prev # earlier) (ng @ [convert_node rec node])"
  by auto

lemma backward_shift:
  "fieldnames_backward rec xs ng = ng @ fieldnames_backward rec xs []"
proof (induction xs arbitrary: ng rule: induct_list012)
  case 1
  show ?case by simp
next
  case (2 x)
  show ?case by simp
next
  case (3 node prev earlier)
  show ?case
  proof (cases "\<not> is_ws (convert_node rec node) \<and> is_fieldname_node prev")
    case True
    then have c: "\<not> is_ws (convert_node rec node)" "is_fieldname_node prev" by simp_all
    show ?thesis
      unfolding backward_consume [OF c]
      using "3.IH"(1) [of "ng @ [set_fieldname (the (fieldname_of prev)) False (convert_node rec node)]"]
        "3.IH"(1) [of "[set_fieldname (the (fieldname_of prev)) False (convert_node rec node)]"]
      by simp
  next
    case False
    then have k: "is_ws (convert_node rec node) \<or> \<not> is_fieldname_node prev" by simp
    show ?thesis
      unfolding backward_keep [OF k]
      using "3.IH"(2) [of "ng @ [convert_node rec node]"] "3.IH"(2) [of "[convert_node rec node]"]
      by simp
  qed
qed

lemma backward_split:
  "\<not> is_fieldname_node m \<Longrightarrow>
   fieldnames_backward rec (xs @ m # ys) []
     = fieldnames_backward rec xs [] @ fieldnames_backward rec (m # ys) []"
proof (induction xs rule: induct_list012)
  case 1
  show ?case by simp
next
  case (2 x)
  then have k: "is_ws (convert_node rec x) \<or> \<not> is_fieldname_node m" by simp
  show ?case
    using backward_keep [OF k, of ys "[]"] backward_shift [of rec "m # ys" "[convert_node rec x]"]
    by simp
next
  case (3 node prev earlier)
  show ?case
  proof (cases "\<not> is_ws (convert_node rec node) \<and> is_fieldname_node prev")
    case True
    then have c: "\<not> is_ws (convert_node rec node)" "is_fieldname_node prev" by simp_all
    show ?thesis
      using "3.IH"(1) [OF "3.prems"]
        backward_consume [OF c, of "earlier @ m # ys" "[]"]
        backward_consume [OF c, of "earlier" "[]"]
        backward_shift [of rec "earlier @ m # ys"
          "[set_fieldname (the (fieldname_of prev)) False (convert_node rec node)]"]
        backward_shift [of rec "earlier"
          "[set_fieldname (the (fieldname_of prev)) False (convert_node rec node)]"]
      by simp
  next
    case False
    then have k: "is_ws (convert_node rec node) \<or> \<not> is_fieldname_node prev" by simp
    show ?thesis
      using "3.IH"(2) [OF "3.prems"]
        backward_keep [OF k, of "earlier @ m # ys" "[]"]
        backward_keep [OF k, of "earlier" "[]"]
        backward_shift [of rec "(prev # earlier) @ m # ys" "[convert_node rec node]"]
        backward_shift [of rec "prev # earlier" "[convert_node rec node]"]
      by simp
  qed
qed

lemma backward_ws:
  assumes "is_ws m"
  shows "fieldnames_backward rec (m # ys) [] = m # fieldnames_backward rec ys []"
proof -
  from assms have c: "convert_node rec m = m" by (cases m) (simp_all add: convert_node_def)
  show ?thesis
  proof (cases ys)
    case Nil
    with c show ?thesis by simp
  next
    case (Cons y ys')
    from assms c have k: "is_ws (convert_node rec m) \<or> \<not> is_fieldname_node y" by simp
    show ?thesis
      unfolding Cons backward_keep [OF k] c
      using backward_shift [of rec "y # ys'" "[m]"] by simp
  qed
qed

lemma backward_head:
  "\<exists>m' ys'. fieldnames_backward rec (m # ys) [] = m' # fieldnames_backward rec ys' []
      \<and> (m' = convert_node rec m \<or> (\<exists>name. m' = set_fieldname name False (convert_node rec m)))"
proof (cases ys)
  case Nil
  have "fieldnames_backward rec [m] [] = convert_node rec m # fieldnames_backward rec [] []"
    by simp
  with Nil show ?thesis by blast
next
  case (Cons y ys')
  show ?thesis
  proof (cases "\<not> is_ws (convert_node rec m) \<and> is_fieldname_node y")
    case True
    then have c: "\<not> is_ws (convert_node rec m)" "is_fieldname_node y" by simp_all
    have "fieldnames_backward rec (m # ys) []
       = set_fieldname (the (fieldname_of y)) False (convert_node rec m)
           # fieldnames_backward rec ys' []"
      unfolding Cons backward_consume [OF c]
      using backward_shift [of rec ys'
          "[set_fieldname (the (fieldname_of y)) False (convert_node rec m)]"]
      by simp
    then show ?thesis by blast
  next
    case False
    then have k: "is_ws (convert_node rec m) \<or> \<not> is_fieldname_node y" by simp
    have "fieldnames_backward rec (m # ys) []
       = convert_node rec m # fieldnames_backward rec ys []"
      unfolding Cons backward_keep [OF k]
      using backward_shift [of rec "y # ys'" "[convert_node rec m]"]
      by simp
    then show ?thesis by blast
  qed
qed

subsection \<open>The two passes of do\_fieldnames, named\<close>

definition first_pass :: "bool \<Rightarrow> string list option \<Rightarrow> ('b::one) node list \<Rightarrow> 'b node list" where
  "first_pass removeunknown schema nodes =
     (if removeunknown \<and> schema \<noteq> None then remove_unknown (the schema) nodes else nodes)"

definition second_pass :: "(('b::one) node \<Rightarrow> 'b node) \<Rightarrow> 'b node list \<Rightarrow> 'b node list" where
  "second_pass rec grp = rev (fieldnames_backward rec (rev grp) [])"

lemma do_fieldnames_group:
  "do_fieldnames ru schema (GroupNode gt nodes fn b)
     = GroupNode gt (second_pass (do_fieldnames ru schema) (first_pass ru schema nodes)) fn b"
  by (simp add: first_pass_def second_pass_def)

lemma first_pass_split:
  "\<not> is_fieldname_node m \<Longrightarrow>
   first_pass ru schema (pre @ m # post)
     = first_pass ru schema (pre @ [m]) @ first_pass ru schema post"
proof (cases "ru \<and> schema \<noteq> None")
  case True
  assume "\<not> is_fieldname_node m"
  then have "\<not> unknown_marker (the schema) m" by (simp add: unknown_marker_def)
  from remove_unknown_split [OF this, of pre post] True show ?thesis
    by (simp add: first_pass_def)
next
  case False
  then show ?thesis by (auto simp: first_pass_def)
qed

lemma first_pass_last:
  "\<not> is_fieldname_node m \<Longrightarrow>
   \<exists>A m'. first_pass ru schema (pre @ [m]) = A @ [m']
           \<and> (m' = m \<or> (\<exists>s. m' = prepend_text s m))"
proof (cases "ru \<and> schema \<noteq> None")
  case True
  assume "\<not> is_fieldname_node m"
  then have "\<not> unknown_marker (the schema) m" by (simp add: unknown_marker_def)
  from remove_unknown_last [OF this, of pre] True show ?thesis
    by (simp add: first_pass_def)
next
  case False
  then have "first_pass ru schema (pre @ [m]) = pre @ [m]" by (auto simp: first_pass_def)
  then show ?thesis by blast
qed

lemma second_pass_split:
  "\<not> is_fieldname_node m \<Longrightarrow>
   second_pass rec (Y @ m # Z) = second_pass rec (Y @ [m]) @ second_pass rec Z"
  using backward_split [of m rec "rev Z" "rev Y"] by (simp add: second_pass_def)

lemma second_pass_last:
  "\<exists>ys m'. second_pass rec (Y @ [m]) = ys @ [m']
      \<and> (m' = convert_node rec m \<or> (\<exists>name. m' = set_fieldname name False (convert_node rec m)))"
proof -
  from backward_head [of rec m "rev Y"] obtain m' ys' where
    h: "fieldnames_backward rec (m # rev Y) [] = m' # fieldnames_backward rec ys' []"
       "m' = convert_node rec m \<or> (\<exists>name. m' = set_fieldname name False (convert_node rec m))"
    by blast
  then have "second_pass rec (Y @ [m]) = rev (fieldnames_backward rec ys' []) @ [m']"
    by (simp add: second_pass_def)
  with h(2) show ?thesis by blast
qed

lemma second_pass_ws:
  "second_pass rec (Y @ [Whitespace]) = second_pass rec Y @ [Whitespace]"
  by (simp add: second_pass_def backward_ws)


subsection \<open>A field name that is set is kept\<close>

lemma fieldname_of_prepend_text: "fieldname_of (prepend_text s n) = fieldname_of n"
  by (cases n) simp_all

lemma has_fieldname_prepend_text: "has_fieldname (prepend_text s n) = has_fieldname n"
  by (cases n) simp_all

lemma fieldname_of_do_fieldnames:
  "has_fieldname n \<Longrightarrow> fieldname_of (do_fieldnames ru schema n) = fieldname_of n"
  by (cases n) simp_all

lemma has_fieldname_do_fieldnames:
  "has_fieldname (do_fieldnames ru schema n) = has_fieldname n"
  by (cases n) simp_all

lemma fieldname_of_set_fieldname:
  "has_fieldname n \<Longrightarrow> fieldname_of n = Some f \<Longrightarrow>
   fieldname_of (set_fieldname name False n) = Some f"
  by (cases n) simp_all

lemma convert_node_keeps:
  assumes "has_fieldname n" and "fieldname_of n = Some f"
  shows "has_fieldname (convert_node (do_fieldnames ru schema) n)
       \<and> fieldname_of (convert_node (do_fieldnames ru schema) n) = Some f"
proof -
  from assms(1) have "\<not> is_fieldname_node n" by (cases n) simp_all
  with assms show ?thesis
    by (simp add: convert_node_def has_fieldname_do_fieldnames fieldname_of_do_fieldnames
          del: do_fieldnames.simps)
qed

lemma do_fieldnames_keeps_local:
  fixes n :: "('b::one) node"
  assumes "has_fieldname n" and "fieldname_of n = Some f"
  shows "\<exists>ys n'. do_fieldnames ru schema (GroupNode gt (pre @ [n] @ post) fn b)
             = GroupNode gt
                 (ys @ [n'] @ nodes_of (do_fieldnames ru schema (GroupNode gt post fn b))) fn b
           \<and> fieldname_of n' = Some f"
proof -
  let ?rec = "do_fieldnames ru schema"
  from assms(1) have nf: "\<not> is_fieldname_node n" by (cases n) simp_all
  from first_pass_last [OF nf, of ru schema pre] obtain A n1 where
    a: "first_pass ru schema (pre @ [n]) = A @ [n1]"
       "n1 = n \<or> (\<exists>s. n1 = prepend_text s n)" by blast
  from a(2) assms have n1: "has_fieldname n1" "fieldname_of n1 = Some f"
    by (auto simp: fieldname_of_prepend_text has_fieldname_prepend_text)
  then have nf1: "\<not> is_fieldname_node n1" by (cases n1) simp_all
  from second_pass_last [of ?rec A n1] obtain ys n2 where
    b: "second_pass ?rec (A @ [n1]) = ys @ [n2]"
       "n2 = convert_node ?rec n1 \<or> (\<exists>name. n2 = set_fieldname name False (convert_node ?rec n1))"
    by blast
  from convert_node_keeps [OF n1] b(2) have n2: "fieldname_of n2 = Some f"
    by (auto simp: fieldname_of_set_fieldname)
  have "first_pass ru schema (pre @ [n] @ post) = A @ n1 # first_pass ru schema post"
    using first_pass_split [OF nf, of ru schema pre post] a(1) by simp
  then have "second_pass ?rec (first_pass ru schema (pre @ [n] @ post))
           = ys @ [n2] @ second_pass ?rec (first_pass ru schema post)"
    using second_pass_split [OF nf1, of ?rec A "first_pass ru schema post"] b(1) by simp
  then have "do_fieldnames ru schema (GroupNode gt (pre @ [n] @ post) fn b)
             = GroupNode gt
                 (ys @ [n2] @ nodes_of (do_fieldnames ru schema (GroupNode gt post fn b))) fn b"
    by (simp only: do_fieldnames_group nodes_of.simps)
  with n2 show ?thesis by blast
qed

subsection \<open>Field names that are set, in document order\<close>

text \<open>
  The field names set on the text, range and group nodes of a tree, in document order (a
  group before its children). Markers contribute nothing.
\<close>

fun set_fieldnames :: "'b node \<Rightarrow> string list" where
  "set_fieldnames (TextNode k t fn b sc ec) = (case fn of None \<Rightarrow> [] | Some f \<Rightarrow> [f])"
| "set_fieldnames (RangeNode s e sx ex fn b sc ec) = (case fn of None \<Rightarrow> [] | Some f \<Rightarrow> [f])"
| "set_fieldnames (GroupNode gt ns fn b) =
     (case fn of None \<Rightarrow> [] | Some f \<Rightarrow> [f]) @ concat (map set_fieldnames ns)"
| "set_fieldnames _ = []"

lemma subseq_concat_map:
  "(\<And>x. x \<in> set xs \<Longrightarrow> subseq (f x) (g x)) \<Longrightarrow>
   subseq (concat (map f xs)) (concat (map g xs))"
  by (induction xs) (auto intro: list_emb_append_mono)

lemma set_fieldnames_set_fieldname:
  "subseq (set_fieldnames n) (set_fieldnames (set_fieldname name False n))"
proof (induction n)
  case (GroupNode gt ns fn b)
  have "subseq (concat (map set_fieldnames ns))
          (concat (map set_fieldnames (map (set_fieldname name False) ns)))"
    unfolding map_map comp_def
    by (rule subseq_concat_map) (rule GroupNode.IH)
  then show ?case
    by (cases fn) (auto intro: list_emb_append_mono)
qed (auto split: option.splits)

lemma set_fieldnames_prepend_text: "set_fieldnames (prepend_text s n) = set_fieldnames n"
  by (cases n) simp_all

lemma set_fieldnames_step:
  "remove_unknown_step schema (ng, tx) x = (ng', tx') \<Longrightarrow>
   concat (map set_fieldnames ng') = concat (map set_fieldnames ng) @ set_fieldnames x"
  by (cases x)
     (auto simp: remove_unknown_step_def WordNode_def set_fieldnames_prepend_text
           split: if_splits)

lemma set_fieldnames_loop:
  "foldl (remove_unknown_step schema) (ng, tx) xs = (ng', tx') \<Longrightarrow>
   concat (map set_fieldnames ng')
     = concat (map set_fieldnames ng) @ concat (map set_fieldnames xs)"
proof (induction xs arbitrary: ng tx)
  case Nil
  then show ?case by simp
next
  case (Cons x xs)
  obtain ng1 t1 where s: "remove_unknown_step schema (ng, tx) x = (ng1, t1)"
    by (cases "remove_unknown_step schema (ng, tx) x")
  from Cons.prems s have "foldl (remove_unknown_step schema) (ng1, t1) xs = (ng', tx')"
    by simp
  from Cons.IH [OF this] set_fieldnames_step [OF s] show ?case by simp
qed

lemma set_fieldnames_first_pass:
  "concat (map set_fieldnames (first_pass ru schema nodes)) = concat (map set_fieldnames nodes)"
proof (cases "ru \<and> schema \<noteq> None")
  case True
  obtain ng t where s: "foldl (remove_unknown_step (the schema)) ([], None) nodes = (ng, t)"
    by (cases "foldl (remove_unknown_step (the schema)) ([], None) nodes")
  from set_fieldnames_loop [OF s] True s show ?thesis
    by (simp add: first_pass_def remove_unknown_flush flush_def WordNode_def)
next
  case False
  then show ?thesis by (auto simp: first_pass_def)
qed

lemma set_fieldnames_convert:
  assumes "is_group m \<Longrightarrow> subseq (set_fieldnames m) (set_fieldnames (rec m))"
  shows "subseq (set_fieldnames m) (set_fieldnames (convert_node rec m))"
proof (cases "is_fieldname_node m")
  case True
  then show ?thesis by (cases m) (simp_all add: convert_node_def)
next
  case False
  with assms show ?thesis by (simp add: convert_node_def)
qed

lemma set_fieldnames_backward:
  assumes "\<And>m. m \<in> set xs \<Longrightarrow> is_group m \<Longrightarrow> subseq (set_fieldnames m) (set_fieldnames (rec m))"
  shows "subseq (concat (map set_fieldnames (rev xs)))
           (concat (map set_fieldnames (rev (fieldnames_backward rec xs []))))"
  using assms
proof (induction xs rule: induct_list012)
  case 1
  show ?case by simp
next
  case (2 x)
  then show ?case by (simp add: set_fieldnames_convert)
next
  case (3 node prev earlier)
  have cn: "subseq (set_fieldnames node) (set_fieldnames (convert_node rec node))"
    by (rule set_fieldnames_convert) (simp add: "3.prems")
  show ?case
  proof (cases "\<not> is_ws (convert_node rec node) \<and> is_fieldname_node prev")
    case True
    then have c: "\<not> is_ws (convert_node rec node)" "is_fieldname_node prev" by simp_all
    let ?n = "set_fieldname (the (fieldname_of prev)) False (convert_node rec node)"
    have p: "set_fieldnames prev = []" using c(2) by (cases prev) simp_all
    have "subseq (set_fieldnames node) (set_fieldnames ?n)"
      using cn set_fieldnames_set_fieldname subseq_order.order_trans by blast
    moreover have "subseq (concat (map set_fieldnames (rev earlier)))
           (concat (map set_fieldnames (rev (fieldnames_backward rec earlier []))))"
      by (rule "3.IH"(1)) (simp add: "3.prems")
    moreover have "fieldnames_backward rec (node # prev # earlier) []
             = ?n # fieldnames_backward rec earlier []"
      unfolding backward_consume [OF c]
      using backward_shift [of rec earlier "[?n]"] by simp
    ultimately show ?thesis
      by (simp add: p list_emb_append_mono)
  next
    case False
    then have k: "is_ws (convert_node rec node) \<or> \<not> is_fieldname_node prev" by simp
    have ih: "subseq (concat (map set_fieldnames (rev (prev # earlier))))
           (concat (map set_fieldnames (rev (fieldnames_backward rec (prev # earlier) []))))"
      by (rule "3.IH"(2)) (simp add: "3.prems")
    have eq: "fieldnames_backward rec (node # prev # earlier) []
             = convert_node rec node # fieldnames_backward rec (prev # earlier) []"
      unfolding backward_keep [OF k]
      using backward_shift [of rec "prev # earlier" "[convert_node rec node]"] by simp
    have "subseq (concat (map set_fieldnames (rev (prev # earlier))) @ set_fieldnames node)
            (concat (map set_fieldnames (rev (fieldnames_backward rec (prev # earlier) [])))
               @ set_fieldnames (convert_node rec node))"
      using ih cn by (rule list_emb_append_mono)
    then show ?thesis
      unfolding eq by simp
  qed
qed

lemma set_fieldnames_second_pass:
  assumes "\<And>m. m \<in> set grp \<Longrightarrow> is_group m \<Longrightarrow> subseq (set_fieldnames m) (set_fieldnames (rec m))"
  shows "subseq (concat (map set_fieldnames grp))
           (concat (map set_fieldnames (second_pass rec grp)))"
  using set_fieldnames_backward [of "rev grp" rec] assms
  by (simp add: second_pass_def)

lemma first_pass_groups:
  "m \<in> set (first_pass ru schema nodes) \<Longrightarrow> is_group m \<Longrightarrow> m \<in> set nodes"
  by (auto simp: first_pass_def dest: remove_unknown_groups split: if_splits)

lemma do_fieldnames_keeps_deep:
  "subseq (set_fieldnames n) (set_fieldnames (do_fieldnames ru schema n))"
proof (induction n)
  case (GroupNode gt ns fn b)
  have "subseq (concat (map set_fieldnames (first_pass ru schema ns)))
          (concat (map set_fieldnames
             (second_pass (do_fieldnames ru schema) (first_pass ru schema ns))))"
    by (rule set_fieldnames_second_pass) (auto dest: first_pass_groups intro: GroupNode.IH)
  then have "subseq (concat (map set_fieldnames ns))
          (concat (map set_fieldnames
             (second_pass (do_fieldnames ru schema) (first_pass ru schema ns))))"
    by (simp only: set_fieldnames_first_pass)
  then show ?case
    by (simp only: do_fieldnames_group set_fieldnames.simps list_emb_append_mono subseq_order.order_refl)
qed simp_all

text \<open>
  C7. Let \<open>n\<close> be a child of the group that can carry a field name and has the field name
  \<open>f\<close> set, whatever comes before it (a field-name marker included) and after it. The
  output of \<^verbatim>\<open>do_fieldnames\<close> ends with the node emitted for \<open>n\<close>, followed by the output
  for the nodes after \<open>n\<close>, and the node emitted for \<open>n\<close> still has the field name \<open>f\<close>.
  At any depth, the field names set in the input tree, read in document order, remain
  in that order among the field names set in the output tree.
\<close>

theorem do_fieldnames_keeps_fieldname:
  fixes n g :: "('b::one) node"
  assumes "has_fieldname n" and "fieldname_of n = Some f"
  shows "(\<exists>ys n'. do_fieldnames ru schema (GroupNode gt (pre @ [n] @ post) fn b)
             = GroupNode gt
                 (ys @ [n'] @ nodes_of (do_fieldnames ru schema (GroupNode gt post fn b))) fn b
           \<and> fieldname_of n' = Some f)
       \<and> subseq (set_fieldnames g) (set_fieldnames (do_fieldnames ru schema g))"
  using do_fieldnames_keeps_local [OF assms, of ru schema gt pre post fn b]
    do_fieldnames_keeps_deep [of g ru schema]
  by (rule conjI)

text \<open>
  \<^verbatim>\<open>title:a\<close>, where the word \<^verbatim>\<open>a\<close> already has the field \<^verbatim>\<open>body\<close>: the marker is used up and
  the word keeps \<^verbatim>\<open>body\<close>.
\<close>

theorem do_fieldnames_keeps_fieldname_witness:
  "has_fieldname (TextNode Word ''a'' (Some ''body'') (1::real) None None)
   \<and> fieldname_of (TextNode Word ''a'' (Some ''body'') (1::real) None None) = Some ''body''
   \<and> do_fieldnames True (Some [''title''])
        (GroupNode AndGroup
           ([FieldnameNode ''title'' ''title:'']
              @ [TextNode Word ''a'' (Some ''body'') (1::real) None None] @ []) None 1)
      = GroupNode AndGroup [TextNode Word ''a'' (Some ''body'') 1 None None] None 1"
proof -
  let ?n = "TextNode Word ''a'' (Some ''body'') (1::real) None None"
  let ?in = "GroupNode AndGroup ([FieldnameNode ''title'' ''title:''] @ [?n] @ []) None 1"
  have h1: "has_fieldname ?n" by simp
  have h2: "fieldname_of ?n = Some ''body''" by simp
  from do_fieldnames_keeps_fieldname [OF h1 h2, of True "Some [''title'']" AndGroup
      "[FieldnameNode ''title'' ''title:'']" "[]" None 1 ?n]
  obtain ys n' where
    eq: "do_fieldnames True (Some [''title'']) ?in
           = GroupNode AndGroup
               (ys @ [n'] @ nodes_of (do_fieldnames True (Some [''title''])
                  (GroupNode AndGroup [] None 1))) None 1"
    and f: "fieldname_of n' = Some ''body''"
    by blast
  have ev: "do_fieldnames True (Some [''title'']) ?in = GroupNode AndGroup [?n] None 1"
    by (simp add: remove_unknown_def remove_unknown_step_def truthy_def convert_node_def)
  have e0: "nodes_of (do_fieldnames True (Some [''title''])
                  (GroupNode AndGroup [] None (1::real))) = []"
    by (simp add: remove_unknown_def truthy_def)
  from eq [symmetric] ev have
    "GroupNode AndGroup
       (ys @ [n'] @ nodes_of (do_fieldnames True (Some [''title''])
                  (GroupNode AndGroup [] None 1))) None 1
     = GroupNode AndGroup [?n] None 1"
    by (rule trans)
  then have "ys @ [n'] = [?n]" unfolding e0 by simp
  then have "ys = []" "n' = ?n" by (simp_all add: append_eq_Cons_conv)
  then have "do_fieldnames True (Some [''title'']) ?in = GroupNode AndGroup [?n] None 1"
    unfolding eq e0 by simp
  with h1 h2 show ?thesis by blast
qed

subsection \<open>A marker followed by whitespace\<close>

lemma first_pass_marker_ws:
  assumes "orig \<noteq> []"
  shows "\<exists>A k. first_pass ru schema (pre @ [FieldnameNode f orig, Whitespace]) = A @ [k, Whitespace]
           \<and> (k = FieldnameNode f orig \<or> k = WordNode orig)"
proof (cases "ru \<and> schema \<noteq> None")
  case False
  then have "first_pass ru schema (pre @ [FieldnameNode f orig, Whitespace])
               = pre @ [FieldnameNode f orig, Whitespace]"
    by (auto simp: first_pass_def)
  then show ?thesis by blast
next
  case True
  let ?step = "remove_unknown_step (the schema)"
  obtain A tx where S: "foldl ?step ([], None) pre = (A, tx)"
    by (cases "foldl ?step ([], None) pre")
  show ?thesis
  proof (cases "unknown_marker (the schema) (FieldnameNode f orig :: 'a node)")
    case u: True
    then have "?step (A, tx) (FieldnameNode f orig) = (A, Some orig)"
      by (simp add: remove_unknown_step_def unknown_marker_def)
    moreover have "?step (A, Some orig) Whitespace = (A @ [WordNode orig] @ [Whitespace], None)"
      using assms by (simp add: remove_unknown_step_def truthy_def)
    ultimately have "first_pass ru schema (pre @ [FieldnameNode f orig, Whitespace])
                       = A @ [WordNode orig, Whitespace]"
      using True by (simp add: first_pass_def remove_unknown_flush S flush_def truthy_def)
    then show ?thesis by blast
  next
    case k: False
    from remove_unknown_step_known [OF k, of A tx] obtain A' t' A'' m' where
      s: "?step (A, tx) (FieldnameNode f orig) = (A', t')" "\<not> truthy t'"
         "A' = A'' @ [m']"
         "m' = FieldnameNode f orig \<or> (\<exists>s. m' = prepend_text s (FieldnameNode f orig))"
      by blast
    then have m': "m' = FieldnameNode f orig" by auto
    have "?step (A', t') Whitespace = (A' @ [Whitespace], t')"
      using s(2) by (simp add: remove_unknown_step_def)
    with s have "first_pass ru schema (pre @ [FieldnameNode f orig, Whitespace])
                       = A'' @ [FieldnameNode f orig, Whitespace]"
      using True by (simp add: first_pass_def remove_unknown_flush S flush_def m')
    then show ?thesis by blast
  qed
qed

lemma do_fieldnames_marker_ws:
  fixes post :: "('b::one) node list"
  assumes "orig \<noteq> []"
  shows "\<exists>ys fn'. do_fieldnames ru schema
             (GroupNode gt (pre @ [FieldnameNode f orig, Whitespace] @ post) fn b)
           = GroupNode gt
               (ys @ [TextNode Word orig fn' 1 None None, Whitespace]
                  @ nodes_of (do_fieldnames ru schema (GroupNode gt post fn b))) fn b"
proof -
  let ?rec = "do_fieldnames ru schema"
  from first_pass_marker_ws [OF assms, of ru schema pre f] obtain A k where
    a: "first_pass ru schema (pre @ [FieldnameNode f orig, Whitespace]) = A @ [k, Whitespace]"
       "k = FieldnameNode f orig \<or> k = (WordNode orig :: 'b node)" by blast
  have ws: "\<not> is_fieldname_node (Whitespace :: 'b node)" by simp
  have "first_pass ru schema (pre @ [FieldnameNode f orig, Whitespace] @ post)
          = A @ [k, Whitespace] @ first_pass ru schema post"
    using first_pass_split [OF ws, of ru schema "pre @ [FieldnameNode f orig]" post] a(1)
    by simp
  moreover have "second_pass ?rec ((A @ [k]) @ Whitespace # first_pass ru schema post)
          = second_pass ?rec (A @ [k]) @ [Whitespace] @ second_pass ?rec (first_pass ru schema post)"
    using second_pass_split [OF ws, of ?rec "A @ [k]" "first_pass ru schema post"]
      second_pass_ws [of ?rec "A @ [k]"] by simp
  moreover
  from a(2) have ck: "convert_node ?rec k = WordNode orig"
    by (auto simp: convert_node_def WordNode_def)
  from second_pass_last [of ?rec A k] obtain ys k' where
    b: "second_pass ?rec (A @ [k]) = ys @ [k']"
       "k' = convert_node ?rec k \<or> (\<exists>name. k' = set_fieldname name False (convert_node ?rec k))"
    by blast
  from b(2) obtain fn' where k': "k' = TextNode Word orig fn' 1 None None"
    unfolding ck by (auto simp: WordNode_def)
  ultimately have "second_pass ?rec (first_pass ru schema
                      (pre @ [FieldnameNode f orig, Whitespace] @ post))
          = ys @ [TextNode Word orig fn' 1 None None, Whitespace]
              @ second_pass ?rec (first_pass ru schema post)"
    using b(1) by simp
  then have "do_fieldnames ru schema
             (GroupNode gt (pre @ [FieldnameNode f orig, Whitespace] @ post) fn b)
           = GroupNode gt
               (ys @ [TextNode Word orig fn' 1 None None, Whitespace]
                  @ nodes_of (do_fieldnames ru schema (GroupNode gt post fn b))) fn b"
    by (simp only: do_fieldnames_group nodes_of.simps)
  then show ?thesis by blast
qed

subsection \<open>A marker followed by whitespace in a nested group\<close>

text \<open>
  \<open>marker_names xs\<close> lists the field names of the markers among \<open>xs\<close>, and
  \<open>path_marker_names p\<close> those of the markers that stand, at any level of the path \<open>p\<close>,
  among the nodes before the enclosing group.
\<close>

definition marker_names :: "'b node list \<Rightarrow> string list" where
  "marker_names xs = map (\<lambda>y. the (fieldname_of y)) (filter is_fieldname_node xs)"

fun path_marker_names :: "'b path \<Rightarrow> string list" where
  "path_marker_names Top = []"
| "path_marker_names (Child gt pre p post fn b) = marker_names pre @ path_marker_names p"

lemma remove_unknown_step_markers:
  "remove_unknown_step schema (newgroup, tx) node = (newgroup', tx') \<Longrightarrow>
   n \<in> set newgroup' \<Longrightarrow> is_fieldname_node n \<Longrightarrow> n \<in> set newgroup \<or> n = node"
  by (cases node)
     (auto simp: remove_unknown_step_def WordNode_def split: if_splits)

lemma remove_unknown_loop_markers:
  "foldl (remove_unknown_step schema) (newgroup, tx) nodes = (newgroup', tx') \<Longrightarrow>
   n \<in> set newgroup' \<Longrightarrow> is_fieldname_node n \<Longrightarrow> n \<in> set newgroup \<or> n \<in> set nodes"
proof (induction nodes arbitrary: newgroup tx)
  case Nil
  then show ?case by simp
next
  case (Cons node nodes)
  obtain ng1 t1 where s: "remove_unknown_step schema (newgroup, tx) node = (ng1, t1)"
    by (cases "remove_unknown_step schema (newgroup, tx) node")
  with Cons.prems have "n \<in> set ng1 \<or> n \<in> set nodes"
    using Cons.IH [of ng1 t1] by simp
  with remove_unknown_step_markers [OF s] Cons.prems(3) show ?case by auto
qed

lemma first_pass_markers:
  assumes "n \<in> set (first_pass ru schema nodes)" and "is_fieldname_node n"
  shows "n \<in> set nodes"
proof (cases "ru \<and> schema \<noteq> None")
  case False
  with assms(1) show ?thesis by (auto simp: first_pass_def)
next
  case True
  obtain ng t where s: "foldl (remove_unknown_step (the schema)) ([], None) nodes = (ng, t)"
    by (cases "foldl (remove_unknown_step (the schema)) ([], None) nodes")
  with assms True have "n \<in> set ng"
    by (auto simp: first_pass_def remove_unknown_def WordNode_def split: if_splits)
  with remove_unknown_loop_markers [OF s] assms(2) show ?thesis by auto
qed

lemma backward_head_marker:
  "\<exists>m' ys'. fieldnames_backward rec (m # ys) [] = m' # fieldnames_backward rec ys' []
      \<and> (m' = convert_node rec m
          \<or> (\<exists>name. name \<in> set (marker_names ys)
                \<and> m' = set_fieldname name False (convert_node rec m)))"
proof (cases ys)
  case Nil
  have "fieldnames_backward rec [m] [] = convert_node rec m # fieldnames_backward rec [] []"
    by simp
  with Nil show ?thesis by blast
next
  case (Cons y ys')
  show ?thesis
  proof (cases "\<not> is_ws (convert_node rec m) \<and> is_fieldname_node y")
    case True
    then have c: "\<not> is_ws (convert_node rec m)" "is_fieldname_node y" by simp_all
    have "fieldnames_backward rec (m # ys) []
       = set_fieldname (the (fieldname_of y)) False (convert_node rec m)
           # fieldnames_backward rec ys' []"
      unfolding Cons backward_consume [OF c]
      using backward_shift [of rec ys'
          "[set_fieldname (the (fieldname_of y)) False (convert_node rec m)]"]
      by simp
    moreover have "the (fieldname_of y) \<in> set (marker_names ys)"
      using c(2) Cons by (simp add: marker_names_def)
    ultimately show ?thesis by blast
  next
    case False
    then have k: "is_ws (convert_node rec m) \<or> \<not> is_fieldname_node y" by simp
    have "fieldnames_backward rec (m # ys) []
       = convert_node rec m # fieldnames_backward rec ys []"
      unfolding Cons backward_keep [OF k]
      using backward_shift [of rec "y # ys'" "[convert_node rec m]"]
      by simp
    then show ?thesis by blast
  qed
qed

lemma second_pass_last_marker:
  "\<exists>ys m'. second_pass rec (Y @ [m]) = ys @ [m']
      \<and> (m' = convert_node rec m
          \<or> (\<exists>name. name \<in> set (marker_names Y)
                \<and> m' = set_fieldname name False (convert_node rec m)))"
proof -
  from backward_head_marker [of rec m "rev Y"] obtain m' ys' where
    h: "fieldnames_backward rec (m # rev Y) [] = m' # fieldnames_backward rec ys' []"
       "m' = convert_node rec m
          \<or> (\<exists>name. name \<in> set (marker_names (rev Y))
                \<and> m' = set_fieldname name False (convert_node rec m))"
    by blast
  then have "second_pass rec (Y @ [m]) = rev (fieldnames_backward rec ys' []) @ [m']"
    by (simp add: second_pass_def)
  moreover have "set (marker_names (rev Y)) = set (marker_names Y)"
    by (simp add: marker_names_def)
  ultimately show ?thesis using h(2) by auto
qed

lemma do_fieldnames_group_child:
  fixes g :: "('b::one) node"
  assumes "is_group g"
  shows "\<exists>ys g'. do_fieldnames ru schema (GroupNode gt (pre @ [g] @ post) fn b)
             = GroupNode gt
                 (ys @ [g'] @ nodes_of (do_fieldnames ru schema (GroupNode gt post fn b))) fn b
           \<and> (g' = do_fieldnames ru schema g
                \<or> (\<exists>name. name \<in> set (marker_names pre)
                      \<and> g' = set_fieldname name False (do_fieldnames ru schema g)))"
proof -
  let ?rec = "do_fieldnames ru schema"
  from assms have nf: "\<not> is_fieldname_node g" by (cases g) simp_all
  from assms have pt: "\<And>s. prepend_text s g = g" by (cases g) simp_all
  from first_pass_last [OF nf, of ru schema pre] pt obtain A where
    a: "first_pass ru schema (pre @ [g]) = A @ [g]" by auto
  have sub: "set (marker_names A) \<subseteq> set (marker_names pre)"
  proof
    fix name assume "name \<in> set (marker_names A)"
    then obtain y where y: "y \<in> set A" "is_fieldname_node y" "name = the (fieldname_of y)"
      by (auto simp: marker_names_def)
    then have "y \<in> set (first_pass ru schema (pre @ [g]))" by (simp add: a)
    then have "y \<in> set (pre @ [g])" using y(2) by (rule first_pass_markers)
    with y(2) nf have "y \<in> set pre" by auto
    with y(2,3) show "name \<in> set (marker_names pre)" by (auto simp: marker_names_def)
  qed
  from second_pass_last_marker [of ?rec A g] obtain ys g' where
    b: "second_pass ?rec (A @ [g]) = ys @ [g']"
       "g' = convert_node ?rec g
          \<or> (\<exists>name. name \<in> set (marker_names A)
                \<and> g' = set_fieldname name False (convert_node ?rec g))"
    by blast
  from assms nf have c: "convert_node ?rec g = ?rec g" by (simp add: convert_node_def)
  have "first_pass ru schema (pre @ [g] @ post) = A @ g # first_pass ru schema post"
    using first_pass_split [OF nf, of ru schema pre post] a by simp
  then have "second_pass ?rec (first_pass ru schema (pre @ [g] @ post))
           = ys @ [g'] @ second_pass ?rec (first_pass ru schema post)"
    using second_pass_split [OF nf, of ?rec A "first_pass ru schema post"] b(1) by simp
  then have "do_fieldnames ru schema (GroupNode gt (pre @ [g] @ post) fn b)
             = GroupNode gt
                 (ys @ [g'] @ nodes_of (do_fieldnames ru schema (GroupNode gt post fn b))) fn b"
    by (simp only: do_fieldnames_group nodes_of.simps)
  with b(2) sub show ?thesis unfolding c by blast
qed

lemma set_fieldname_plug:
  "\<exists>q'. depth q' = depth q \<and> set_fieldname name ov (plug q X) = plug q' (set_fieldname name ov X)"
proof (induction q)
  case Top
  have "depth (Top :: 'a path) = depth (Top :: 'a path)
        \<and> set_fieldname name ov (plug Top X) = plug Top (set_fieldname name ov X)" by simp
  then show ?case by blast
next
  case (Child gt pre q post fn b)
  then obtain q' where q': "depth q' = depth q"
    "set_fieldname name ov (plug q X) = plug q' (set_fieldname name ov X)" by blast
  let ?q = "Child gt (map (set_fieldname name ov) pre) q' (map (set_fieldname name ov) post)
              (if fn = None \<or> ov then Some name else fn) b"
  have "depth ?q = depth (Child gt pre q post fn b)
        \<and> set_fieldname name ov (plug (Child gt pre q post fn b) X)
            = plug ?q (set_fieldname name ov X)"
    using q' by simp
  then show ?case by blast
qed

text \<open>
  \<open>fill_names names t\<close> is \<open>t\<close> after \<^verbatim>\<open>set_fieldname(name, override=False)\<close> for each of the
  names in turn: the tree \<open>t\<close> in which nodes without a field name may have received one.
\<close>

definition fill_names :: "string list \<Rightarrow> 'b node \<Rightarrow> 'b node" where
  "fill_names names t = fold (\<lambda>name. set_fieldname name False) names t"

lemma fill_names_snoc:
  "fill_names (names @ [name]) t = set_fieldname name False (fill_names names t)"
  by (simp add: fill_names_def)

lemma fill_names_group:
  "\<exists>gfn. fill_names names (GroupNode gt cs fn b)
           = GroupNode gt (map (fill_names names) cs) gfn b"
proof (induction names rule: rev_induct)
  case Nil
  show ?case by (simp add: fill_names_def)
next
  case (snoc name names)
  then obtain gfn where "fill_names names (GroupNode gt cs fn b)
           = GroupNode gt (map (fill_names names) cs) gfn b" by blast
  then have "fill_names (names @ [name]) (GroupNode gt cs fn b)
           = GroupNode gt (map (fill_names (names @ [name])) cs)
               (if gfn = None then Some name else gfn) b"
    by (simp add: fill_names_snoc)
  then show ?case by blast
qed

lemma fill_names_word:
  "\<exists>fn2. fill_names names (TextNode k t fn b sc ec) = TextNode k t fn2 b sc ec"
proof (induction names rule: rev_induct)
  case Nil
  show ?case by (simp add: fill_names_def)
next
  case (snoc name names)
  then obtain fn2 where "fill_names names (TextNode k t fn b sc ec) = TextNode k t fn2 b sc ec"
    by blast
  then show ?case by (simp add: fill_names_snoc)
qed

lemma fill_names_ws: "fill_names names Whitespace = Whitespace"
  by (induction names rule: rev_induct) (simp_all add: fill_names_def)

lemma do_fieldnames_marker_ws_deep_raw:
  fixes post :: "('b::one) node list"
  assumes "orig \<noteq> []"
  shows "\<exists>q names ys fn'. depth q = depth p \<and> set names \<subseteq> set (path_marker_names p)
           \<and> do_fieldnames ru schema
               (plug p (GroupNode gt (pre @ [FieldnameNode f orig, Whitespace] @ post) fn b))
             = plug q (fill_names names
                 (GroupNode gt
                    (ys @ [TextNode Word orig fn' 1 None None, Whitespace]
                       @ nodes_of (do_fieldnames ru schema (GroupNode gt post fn b))) fn b))"
proof (induction p)
  case Top
  from do_fieldnames_marker_ws [OF assms, of ru schema gt pre f post fn b] obtain ys fn' where
    "do_fieldnames ru schema (GroupNode gt (pre @ [FieldnameNode f orig, Whitespace] @ post) fn b)
       = GroupNode gt
           (ys @ [TextNode Word orig fn' 1 None None, Whitespace]
              @ nodes_of (do_fieldnames ru schema (GroupNode gt post fn b))) fn b"
    by blast
  then have "depth (Top :: 'b path) = depth (Top :: 'b path)
      \<and> set ([] :: string list) \<subseteq> set (path_marker_names (Top :: 'b path))
      \<and> do_fieldnames ru schema
          (plug Top (GroupNode gt (pre @ [FieldnameNode f orig, Whitespace] @ post) fn b))
        = plug Top (fill_names []
            (GroupNode gt
               (ys @ [TextNode Word orig fn' 1 None None, Whitespace]
                  @ nodes_of (do_fieldnames ru schema (GroupNode gt post fn b))) fn b))"
    by (simp add: fill_names_def)
  then show ?case by blast
next
  case (Child gt' pre' p post' fn' b')
  let ?in = "GroupNode gt (pre @ [FieldnameNode f orig, Whitespace] @ post) fn b"
  from Child.IH obtain q names ys fw where
    ih: "depth q = depth p" "set names \<subseteq> set (path_marker_names p)"
        "do_fieldnames ru schema (plug p ?in)
           = plug q (fill_names names
               (GroupNode gt
                  (ys @ [TextNode Word orig fw 1 None None, Whitespace]
                     @ nodes_of (do_fieldnames ru schema (GroupNode gt post fn b))) fn b))"
    by blast
  let ?X = "GroupNode gt
                  (ys @ [TextNode Word orig fw 1 None None, Whitespace]
                     @ nodes_of (do_fieldnames ru schema (GroupNode gt post fn b))) fn b"
  have g: "is_group (plug p ?in)" by (rule is_group_plug) simp
  from do_fieldnames_group_child [OF g, of ru schema gt' pre' post' fn' b'] obtain ys' g' where
    out: "do_fieldnames ru schema (GroupNode gt' (pre' @ [plug p ?in] @ post') fn' b')
            = GroupNode gt'
                (ys' @ [g'] @ nodes_of (do_fieldnames ru schema (GroupNode gt' post' fn' b')))
                fn' b'"
    and g': "g' = do_fieldnames ru schema (plug p ?in)
              \<or> (\<exists>name. name \<in> set (marker_names pre')
                    \<and> g' = set_fieldname name False (do_fieldnames ru schema (plug p ?in)))"
    by blast
  from g' obtain q2 names2 where q2: "depth q2 = depth p"
    "set names2 \<subseteq> set (marker_names pre') \<union> set (path_marker_names p)"
    "g' = plug q2 (fill_names names2 ?X)"
  proof
    assume "g' = do_fieldnames ru schema (plug p ?in)"
    with ih that [of q names] show ?thesis by auto
  next
    assume "\<exists>name. name \<in> set (marker_names pre')
              \<and> g' = set_fieldname name False (do_fieldnames ru schema (plug p ?in))"
    then obtain name where n: "name \<in> set (marker_names pre')"
      "g' = set_fieldname name False (plug q (fill_names names ?X))"
      using ih(3) by auto
    from set_fieldname_plug [of q name False "fill_names names ?X"] obtain q' where
      "depth q' = depth q"
      "set_fieldname name False (plug q (fill_names names ?X))
         = plug q' (set_fieldname name False (fill_names names ?X))"
      by blast
    with n ih(1) have "depth q' = depth p" "g' = plug q' (fill_names (names @ [name]) ?X)"
      by (simp_all add: fill_names_snoc)
    moreover have "set (names @ [name]) \<subseteq> set (marker_names pre') \<union> set (path_marker_names p)"
      using n(1) ih(2) by auto
    ultimately show ?thesis using that [of q' "names @ [name]"] by blast
  qed
  let ?q = "Child gt' ys' q2 (nodes_of (do_fieldnames ru schema (GroupNode gt' post' fn' b')))
              fn' b'"
  have "depth ?q = depth (Child gt' pre' p post' fn' b')
      \<and> set names2 \<subseteq> set (path_marker_names (Child gt' pre' p post' fn' b'))
      \<and> do_fieldnames ru schema (plug (Child gt' pre' p post' fn' b') ?in)
          = plug ?q (fill_names names2 ?X)"
    using out q2 by (simp del: do_fieldnames.simps)
  then show ?case by blast
qed

lemma do_fieldnames_marker_ws_deep:
  fixes post :: "('b::one) node list"
  assumes "orig \<noteq> []"
  shows "\<exists>q names ys fn' gfn. depth q = depth p \<and> set names \<subseteq> set (path_marker_names p)
           \<and> do_fieldnames ru schema
               (plug p (GroupNode gt (pre @ [FieldnameNode f orig, Whitespace] @ post) fn b))
             = plug q
                 (GroupNode gt
                    (ys @ [TextNode Word orig fn' 1 None None, Whitespace]
                       @ map (fill_names names)
                           (nodes_of (do_fieldnames ru schema (GroupNode gt post fn b)))) gfn b)"
proof -
  from do_fieldnames_marker_ws_deep_raw [OF assms, of p ru schema gt pre f post fn b]
  obtain q names ys fw where
    r: "depth q = depth p" "set names \<subseteq> set (path_marker_names p)"
       "do_fieldnames ru schema
               (plug p (GroupNode gt (pre @ [FieldnameNode f orig, Whitespace] @ post) fn b))
             = plug q (fill_names names
                 (GroupNode gt
                    (ys @ [TextNode Word orig fw 1 None None, Whitespace]
                       @ nodes_of (do_fieldnames ru schema (GroupNode gt post fn b))) fn b))"
    by blast
  from fill_names_group [of names gt
      "ys @ [TextNode Word orig fw 1 None None, Whitespace]
         @ nodes_of (do_fieldnames ru schema (GroupNode gt post fn b))" fn b]
  obtain gfn where
    g: "fill_names names
                 (GroupNode gt
                    (ys @ [TextNode Word orig fw 1 None None, Whitespace]
                       @ nodes_of (do_fieldnames ru schema (GroupNode gt post fn b))) fn b)
        = GroupNode gt (map (fill_names names)
                    (ys @ [TextNode Word orig fw 1 None None, Whitespace]
                       @ nodes_of (do_fieldnames ru schema (GroupNode gt post fn b)))) gfn b"
    by blast
  from fill_names_word [of names Word orig fw "1::'b" None None] obtain fn2 where
    w: "fill_names names (TextNode Word orig fw (1::'b) None None)
          = TextNode Word orig fn2 1 None None" by blast
  have "do_fieldnames ru schema
               (plug p (GroupNode gt (pre @ [FieldnameNode f orig, Whitespace] @ post) fn b))
             = plug q
                 (GroupNode gt
                    (map (fill_names names) ys @ [TextNode Word orig fn2 1 None None, Whitespace]
                       @ map (fill_names names)
                           (nodes_of (do_fieldnames ru schema (GroupNode gt post fn b)))) gfn b)"
    unfolding r(3) g by (simp add: w fill_names_ws)
  with r(1,2) show ?thesis by blast
qed

text \<open>
  C10. \<^verbatim>\<open>do_fieldnames\<close> runs at priority 100, before whitespace is removed at priority
  500. Take a field-name marker (its matched text is not empty) immediately followed by a
  whitespace node.
  \<^item> Among the children of the group given to the filter, the marker leaves the filter
    as a word of its original text, followed by the whitespace node; what follows is
    the output of the filter for the later nodes alone, so that the marker's field name
    reaches none of them. (The word itself may take the name of a marker that stood
    before it.)
  \<^item> In a group nested at any depth \<open>p\<close> of the tree given to the filter, the output has
    at the same depth a group of the same type and boost that holds the word of the
    marker's original text, followed by the whitespace node, followed by the output of
    the filter for the later nodes alone, in which nodes without a field name may have
    received a name, and only the name of a marker that stood before an enclosing group
    (\<open>path_marker_names p\<close>): the marker itself gives its name to no node.
\<close>

theorem do_fieldnames_marker_before_whitespace:
  fixes post :: "('b::one) node list"
  assumes "orig \<noteq> []"
  shows "do_fieldnames_priority < remove_whitespace_priority
       \<and> (\<exists>ys fn'. do_fieldnames ru schema
             (GroupNode gt (pre @ [FieldnameNode f orig, Whitespace] @ post) fn b)
           = GroupNode gt
               (ys @ [TextNode Word orig fn' 1 None None, Whitespace]
                  @ nodes_of (do_fieldnames ru schema (GroupNode gt post fn b))) fn b)
       \<and> (\<exists>q names ys fn' gfn. depth q = depth p
           \<and> set names \<subseteq> set (path_marker_names p)
           \<and> do_fieldnames ru schema
               (plug p (GroupNode gt (pre @ [FieldnameNode f orig, Whitespace] @ post) fn b))
             = plug q
                 (GroupNode gt
                    (ys @ [TextNode Word orig fn' 1 None None, Whitespace]
                       @ map (fill_names names)
                           (nodes_of (do_fieldnames ru schema (GroupNode gt post fn b))))
                    gfn b))"
proof (intro conjI)
  show "do_fieldnames_priority < remove_whitespace_priority"
    by (simp add: do_fieldnames_priority_def remove_whitespace_priority_def)
  show "\<exists>ys fn'. do_fieldnames ru schema
             (GroupNode gt (pre @ [FieldnameNode f orig, Whitespace] @ post) fn b)
           = GroupNode gt
               (ys @ [TextNode Word orig fn' 1 None None, Whitespace]
                  @ nodes_of (do_fieldnames ru schema (GroupNode gt post fn b))) fn b"
    using assms by (rule do_fieldnames_marker_ws)
  show "\<exists>q names ys fn' gfn. depth q = depth p
           \<and> set names \<subseteq> set (path_marker_names p)
           \<and> do_fieldnames ru schema
               (plug p (GroupNode gt (pre @ [FieldnameNode f orig, Whitespace] @ post) fn b))
             = plug q
                 (GroupNode gt
                    (ys @ [TextNode Word orig fn' 1 None None, Whitespace]
                       @ map (fill_names names)
                           (nodes_of (do_fieldnames ru schema (GroupNode gt post fn b))))
                    gfn b)"
    using assms by (rule do_fieldnames_marker_ws_deep)
qed

text \<open>
  \<^verbatim>\<open>x (title: hello)\<close> with \<^verbatim>\<open>title\<close> in the schema: inside the nested group the marker
  becomes the word \<^verbatim>\<open>title:\<close>, and \<^verbatim>\<open>hello\<close> has no field name.
\<close>

theorem do_fieldnames_marker_before_whitespace_witness:
  "''title:'' \<noteq> []
   \<and> (\<exists>q names ys fn' gfn. depth q = depth (Child AndGroup [WordNode ''x'', Whitespace] Top []
                                              None (1::real))
        \<and> set names \<subseteq> set (path_marker_names
                                (Child AndGroup [WordNode ''x'', Whitespace] Top [] None (1::real)))
        \<and> do_fieldnames True (Some [''title''])
            (plug (Child AndGroup [WordNode ''x'', Whitespace] Top [] None 1)
               (GroupNode AndGroup
                  ([] @ [FieldnameNode ''title'' ''title:'', Whitespace] @ [WordNode ''hello''])
                  None (1::real)))
          = plug q
              (GroupNode AndGroup
                 (ys @ [TextNode Word ''title:'' fn' 1 None None, Whitespace]
                    @ map (fill_names names)
                        (nodes_of (do_fieldnames True (Some [''title''])
                           (GroupNode AndGroup [WordNode ''hello''] None 1))))
                 gfn 1))
   \<and> do_fieldnames True (Some [''title''])
        (plug (Child AndGroup [WordNode ''x'', Whitespace] Top [] None 1)
           (GroupNode AndGroup
              ([] @ [FieldnameNode ''title'' ''title:'', Whitespace] @ [WordNode ''hello''])
              None (1::real)))
      = GroupNode AndGroup
          [WordNode ''x'', Whitespace,
           GroupNode AndGroup [WordNode ''title:'', Whitespace, WordNode ''hello''] None 1]
          None 1"
proof -
  have h: "''title:'' \<noteq> []" by simp
  note t = do_fieldnames_marker_before_whitespace [OF h, of True "Some [''title'']" AndGroup
      "[]" "''title''" "[WordNode ''hello'']" None "1::real"
      "Child AndGroup [WordNode ''x'', Whitespace] Top [] None 1"]
  have ev: "do_fieldnames True (Some [''title''])
        (plug (Child AndGroup [WordNode ''x'', Whitespace] Top [] None 1)
           (GroupNode AndGroup
              ([] @ [FieldnameNode ''title'' ''title:'', Whitespace] @ [WordNode ''hello''])
              None (1::real)))
      = GroupNode AndGroup
          [WordNode ''x'', Whitespace,
           GroupNode AndGroup [WordNode ''title:'', Whitespace, WordNode ''hello''] None 1]
          None 1"
    by (simp add: remove_unknown_def remove_unknown_step_def truthy_def convert_node_def
          WordNode_def)
  have d: "\<exists>q names ys fn' gfn.
        depth q = depth (Child AndGroup [WordNode ''x'', Whitespace] Top [] None (1::real))
        \<and> set names \<subseteq> set (path_marker_names
                                (Child AndGroup [WordNode ''x'', Whitespace] Top [] None (1::real)))
        \<and> do_fieldnames True (Some [''title''])
            (plug (Child AndGroup [WordNode ''x'', Whitespace] Top [] None 1)
               (GroupNode AndGroup
                  ([] @ [FieldnameNode ''title'' ''title:'', Whitespace] @ [WordNode ''hello''])
                  None (1::real)))
          = plug q
              (GroupNode AndGroup
                 (ys @ [TextNode Word ''title:'' fn' 1 None None, Whitespace]
                    @ map (fill_names names)
                        (nodes_of (do_fieldnames True (Some [''title''])
                           (GroupNode AndGroup [WordNode ''hello''] None 1))))
                 gfn 1)"
    by (rule conjunct2 [OF conjunct2 [OF t]])
  from h d ev show ?thesis by (intro conjI)
qed

section \<open>OperatorsPlugin.do\_operators\<close>















section \<open>Operator precedence under the default configuration\<close>











end
